theory Spec2Isabelle
  imports Complex_Main "HOL-Library.AList" "HOL-Library.Multiset" "HOL-Library.Monad_Syntax"
    "HOL-Library.Char_ord" "HOL-Library.List_Lexorder"
begin

section \<open>JavaScript containers and sorting\<close>

text \<open>
  A JavaScript \<^verbatim>\<open>Map\<close> iterates in insertion order, and the scripts depend on that
  order (positions, pair order, the order of the output before sorting). It is modelled
  as an association list with distinct keys: \<open>map_has\<close>, \<open>map_get\<close> and \<open>map_set\<close> are
  \<^verbatim>\<open>has\<close>, \<^verbatim>\<open>get\<close> and \<^verbatim>\<open>set\<close>. Setting a key that is present keeps its position;
  a new key goes last.
\<close>

type_synonym 'v jsmap = "(string \<times> 'v) list"

definition map_has :: "'v jsmap \<Rightarrow> string \<Rightarrow> bool" where
  "map_has m k = (map_of m k \<noteq> None)"

definition map_get :: "'v jsmap \<Rightarrow> string \<Rightarrow> 'v option" where
  "map_get m k = map_of m k"

definition map_set :: "'v jsmap \<Rightarrow> string \<Rightarrow> 'v \<Rightarrow> 'v jsmap" where
  "map_set m k v = AList.update k v m"

text \<open>
  \<^verbatim>\<open>Array.prototype.sort(cmp)\<close> is stable (ECMAScript 2019), and for a consistent
  comparator its result is the one stable arrangement in which \<open>cmp a b \<le> 0\<close> holds for
  every element \<open>a\<close> before an element \<open>b\<close>. Insertion from the right computes that
  arrangement: an element goes before the first element it does not exceed, so it stays
  ahead of the equal elements that followed it in the input. Every comparator of the
  scripts is a difference of numbers (or a chain of such differences), so the comparator
  returns a number and only its sign is read.
\<close>

fun insertBy :: "('a \<Rightarrow> 'a \<Rightarrow> 'n::{zero,ord}) \<Rightarrow> 'a \<Rightarrow> 'a list \<Rightarrow> 'a list" where
  "insertBy cmp x [] = [x]"
| "insertBy cmp x (y # ys) = (if cmp x y \<le> 0 then x # y # ys else y # insertBy cmp x ys)"

definition jsSort :: "('a \<Rightarrow> 'a \<Rightarrow> 'n::{zero,ord}) \<Rightarrow> 'a list \<Rightarrow> 'a list" where
  "jsSort cmp xs = foldr (insertBy cmp) xs []"

text \<open>A value is falsy for \<^verbatim>\<open>!x\<close> when it is \<^verbatim>\<open>undefined\<close> or the empty string.\<close>

definition falsy :: "string option \<Rightarrow> bool" where
  "falsy s = (s = None \<or> s = Some [])"

text \<open>
  A \<^verbatim>\<open>for ... of\<close> loop whose body may fail to produce the next state: the state is
  threaded through the body, and \<open>None\<close> ends the loop with \<open>None\<close>.
\<close>

fun forOf :: "('s \<Rightarrow> 'a \<Rightarrow> 's option) \<Rightarrow> 's \<Rightarrow> 'a list \<Rightarrow> 's option" where
  "forOf body s [] = Some s"
| "forOf body s (x # xs) = (case body s x of None \<Rightarrow> None | Some s' \<Rightarrow> forOf body s' xs)"

section \<open>JavaScript numbers and values\<close>

text \<open>
  A JavaScript number is a finite number, an infinity or \<^verbatim>\<open>NaN\<close>. Finite numbers are
  exact rationals: rounding and overflow are not modelled, and negative zero is not
  told apart from zero (it differs from zero in the sign of a quotient by it and in
  printing only). The arithmetic is that of IEEE 754 on these values.
\<close>

datatype jsnum = Num rat | PosInf | NegInf | NaN

fun jsneg :: "jsnum \<Rightarrow> jsnum" where
  "jsneg (Num a) = Num (- a)"
| "jsneg PosInf = NegInf"
| "jsneg NegInf = PosInf"
| "jsneg NaN = NaN"

fun jsadd :: "jsnum \<Rightarrow> jsnum \<Rightarrow> jsnum" where
  "jsadd (Num a) (Num b) = Num (a + b)"
| "jsadd NaN y = NaN"
| "jsadd x NaN = NaN"
| "jsadd PosInf NegInf = NaN"
| "jsadd NegInf PosInf = NaN"
| "jsadd PosInf y = PosInf"
| "jsadd x PosInf = PosInf"
| "jsadd NegInf y = NegInf"
| "jsadd x NegInf = NegInf"

definition jssub :: "jsnum \<Rightarrow> jsnum \<Rightarrow> jsnum" where
  "jssub x y = jsadd x (jsneg y)"

fun jsmul :: "jsnum \<Rightarrow> jsnum \<Rightarrow> jsnum" where
  "jsmul (Num a) (Num b) = Num (a * b)"
| "jsmul NaN y = NaN"
| "jsmul x NaN = NaN"
| "jsmul PosInf (Num b) = (if b = 0 then NaN else if b > 0 then PosInf else NegInf)"
| "jsmul NegInf (Num b) = (if b = 0 then NaN else if b > 0 then NegInf else PosInf)"
| "jsmul (Num a) PosInf = (if a = 0 then NaN else if a > 0 then PosInf else NegInf)"
| "jsmul (Num a) NegInf = (if a = 0 then NaN else if a > 0 then NegInf else PosInf)"
| "jsmul PosInf PosInf = PosInf"
| "jsmul NegInf NegInf = PosInf"
| "jsmul PosInf NegInf = NegInf"
| "jsmul NegInf PosInf = NegInf"

text \<open>
  Division: a finite number by zero is an infinity of its sign, and zero by zero is
  \<^verbatim>\<open>NaN\<close>, as is an infinity by an infinity.
\<close>

fun jsdiv :: "jsnum \<Rightarrow> jsnum \<Rightarrow> jsnum" where
  "jsdiv (Num a) (Num b) =
     (if b \<noteq> 0 then Num (a / b) else if a = 0 then NaN else if a > 0 then PosInf else NegInf)"
| "jsdiv NaN y = NaN"
| "jsdiv x NaN = NaN"
| "jsdiv (Num a) PosInf = Num 0"
| "jsdiv (Num a) NegInf = Num 0"
| "jsdiv PosInf (Num b) = (if b \<ge> 0 then PosInf else NegInf)"
| "jsdiv NegInf (Num b) = (if b \<ge> 0 then NegInf else PosInf)"
| "jsdiv PosInf PosInf = NaN"
| "jsdiv PosInf NegInf = NaN"
| "jsdiv NegInf PosInf = NaN"
| "jsdiv NegInf NegInf = NaN"

text \<open>
  The values a parsed JSON record can hold, and \<^verbatim>\<open>undefined\<close> for a missing field.
  \<open>JObject\<close> stands for a plain object; arrays are not modelled.
\<close>

datatype jsval = JUndefined | JNull | JBool bool | JNumber jsnum | JString string | JObject



text \<open>
  \<^verbatim>\<open>ToNumber\<close>, which the arithmetic operators apply to their operands, with the
  conversion of strings (\<^verbatim>\<open>StringToNumber\<close>) taken as a parameter.
\<close>

fun ToNumber :: "(string \<Rightarrow> jsnum) \<Rightarrow> jsval \<Rightarrow> jsnum" where
  "ToNumber sn JUndefined = NaN"
| "ToNumber sn JNull = Num 0"
| "ToNumber sn (JBool b) = Num (if b then 1 else 0)"
| "ToNumber sn (JNumber n) = n"
| "ToNumber sn (JString s) = sn s"
| "ToNumber sn JObject = NaN"

subsection \<open>Sorting with a comparator that returns a number\<close>

text \<open>
  What \<^verbatim>\<open>Array.prototype.sort\<close> reads of the comparator's result \<open>v\<close>: its sign, with
  \<^verbatim>\<open>NaN\<close> read as \<open>+0\<close>.
\<close>

fun sortSign :: "jsnum \<Rightarrow> int" where
  "sortSign (Num r) = (if r < 0 then - 1 else if r > 0 then 1 else 0)"
| "sortSign PosInf = 1"
| "sortSign NegInf = - 1"
| "sortSign NaN = 0"

text \<open>
  ECMAScript's consistent comparison function for the elements of \<open>xs\<close>: the result is
  never \<^verbatim>\<open>NaN\<close>, every element equals itself, equality is symmetric, and equality, less
  and greater are transitive.
\<close>

definition consistentCmp :: "('a \<Rightarrow> 'a \<Rightarrow> jsnum) \<Rightarrow> 'a list \<Rightarrow> bool" where
  "consistentCmp cmp xs =
     (list_all (\<lambda>a. list_all (\<lambda>b. cmp a b \<noteq> NaN) xs) xs
      \<and> list_all (\<lambda>a. sortSign (cmp a a) = 0) xs
      \<and> list_all (\<lambda>a. list_all (\<lambda>b.
            sortSign (cmp a b) = 0 \<longrightarrow> sortSign (cmp b a) = 0) xs) xs
      \<and> list_all (\<lambda>a. list_all (\<lambda>b. list_all (\<lambda>c.
            (sortSign (cmp a b) = 0 \<and> sortSign (cmp b c) = 0 \<longrightarrow> sortSign (cmp a c) = 0)
          \<and> (sortSign (cmp a b) < 0 \<and> sortSign (cmp b c) < 0 \<longrightarrow> sortSign (cmp a c) < 0)
          \<and> (sortSign (cmp a b) > 0 \<and> sortSign (cmp b c) > 0 \<longrightarrow> sortSign (cmp a c) > 0))
          xs) xs) xs)"

text \<open>
  \<^verbatim>\<open>xs.sort(cmp)\<close> for a comparator on values that need not be numbers. With a
  consistent comparator the result is the stable sorted arrangement; an array of at
  most one element is left as it is whatever the comparator; in every other case
  ECMAScript leaves the order to the implementation, and the result is \<open>None\<close>.
\<close>

definition jsSortBy :: "('a \<Rightarrow> 'a \<Rightarrow> jsnum) \<Rightarrow> 'a list \<Rightarrow> 'a list option" where
  "jsSortBy cmp xs =
     (if length xs \<le> 1 \<or> consistentCmp cmp xs
      then Some (jsSort (\<lambda>a b. sortSign (cmp a b)) xs) else None)"

subsection \<open>Lower case\<close>

text \<open>
  \<^verbatim>\<open>String.prototype.toLowerCase\<close>. A character is a code unit from U+0000 to U+00FF;
  among these the upper-case letters are A to Z and U+00C0 to U+00DE without the
  multiplication sign U+00D7, and each has its lower-case form 32 places later. The
  other characters have no lower-case form and stay.
\<close>

definition isUpper :: "char \<Rightarrow> bool" where
  "isUpper c =
     ((65 \<le> (of_char c :: nat) \<and> (of_char c :: nat) \<le> 90)
      \<or> (192 \<le> (of_char c :: nat) \<and> (of_char c :: nat) \<le> 222 \<and> (of_char c :: nat) \<noteq> 215))"

text \<open>An upper-case letter and its lower-case form differ in the bit of value 32.\<close>

fun lowerChar :: "char \<Rightarrow> char" where
  "lowerChar (Char b0 b1 b2 b3 b4 b5 b6 b7) =
     (if isUpper (Char b0 b1 b2 b3 b4 b5 b6 b7) then Char b0 b1 b2 b3 b4 True b6 b7
      else Char b0 b1 b2 b3 b4 b5 b6 b7)"

definition toLowerCase :: "string \<Rightarrow> string" where
  "toLowerCase s = map lowerChar s"


section \<open>The leader finder: raw records, per-market first trades, running statistics\<close>

datatype Side = BUY | SELL


subsection \<open>The normaliser\<close>


text \<open>
  The \<^verbatim>\<open>Trade\<close> object the leader finder builds from a raw record, with the values it
  holds at run time: the fields copied from the record hold whatever the record held,
  \<^verbatim>\<open>usdcSize\<close> is a product and so a number, and \<^verbatim>\<open>maker\<close>, \<^verbatim>\<open>taker\<close> and \<^verbatim>\<open>owner\<close>
  come from \<^verbatim>\<open>x?.toLowerCase()\<close> and are a string or \<^verbatim>\<open>undefined\<close> (\<open>None\<close>).
\<close>

record NormTrade =
  n_id :: jsval
  n_timestamp :: jsval
  n_maker :: "string option"
  n_taker :: "string option"
  n_side :: jsval
  n_price :: jsval
  n_size :: jsval
  n_usdcSize :: jsnum
  n_market :: string
  n_asset :: jsval
  n_owner :: "string option"



subsection \<open>The first trades of one market\<close>

text \<open>The record \<^verbatim>\<open>{ timestamp, volume, position }\<close> kept per trader and market.\<close>

record FirstTradeJs =
  fj_timestamp :: jsval
  fj_volume :: jsnum
  fj_position :: int

text \<open>
  One pass of the loop \<^verbatim>\<open>for (const trade of sortedTrades)\<close> of \<^verbatim>\<open>analyzeMarkets\<close>: a
  trade without an owner is skipped; the first trade of an owner creates the record with
  its 1-indexed position; a later trade only adds to the volume.
\<close>

definition firstTradeStep :: "FirstTradeJs jsmap \<Rightarrow> NormTrade \<Rightarrow> FirstTradeJs jsmap" where
  "firstTradeStep traderFirstTrade trade =
     (if falsy (n_owner trade) then traderFirstTrade
      else let trader = the (n_owner trade) in
        (case map_get traderFirstTrade trader of
           None \<Rightarrow>
             map_set traderFirstTrade trader
               \<lparr>fj_timestamp = n_timestamp trade, fj_volume = n_usdcSize trade,
                fj_position = int (length traderFirstTrade) + 1\<rparr>
         | Some existing \<Rightarrow>
             map_set traderFirstTrade trader
               (existing\<lparr>fj_volume := jsadd (fj_volume existing) (n_usdcSize trade)\<rparr>)))"

definition traderFirstTrades :: "NormTrade list \<Rightarrow> FirstTradeJs jsmap" where
  "traderFirstTrades sortedTrades = foldl firstTradeStep [] sortedTrades"

subsection \<open>The running statistics\<close>

text \<open>
  \<^verbatim>\<open>TraderStats\<close> with the values it holds at run time: the volume and the two averages
  are computed from the trades and can be any number; the counters are integers.
\<close>

record TraderStatsJs =
  js_address :: string
  js_timesFirst :: int
  js_timesInTopN :: int
  js_totalVolume :: jsnum
  js_avgPositionInMarket :: jsnum
  js_marketsTraded :: "string set"
  js_avgTimeToMarket :: jsnum
  js_tradeCount :: int

definition emptyStatsJs :: "string \<Rightarrow> TraderStatsJs" where
  "emptyStatsJs trader =
     \<lparr>js_address = trader, js_timesFirst = 0, js_timesInTopN = 0, js_totalVolume = Num 0,
      js_avgPositionInMarket = Num 0, js_marketsTraded = {}, js_avgTimeToMarket = Num 0,
      js_tradeCount = 0\<rparr>"

text \<open>
  The update of one trader's global statistics with the trader's record of one market
  (the body of \<^verbatim>\<open>for (const [trader, data] of traderFirstTrade.entries())\<close> after the
  lookup). \<^verbatim>\<open>tradeCount\<close> is incremented first, so the two running averages divide by
  the new count. \<^verbatim>\<open>data.timestamp - firstTradeTime\<close> converts both operands to numbers.
\<close>

definition updateStatsJs ::
  "(string \<Rightarrow> jsnum) \<Rightarrow> int \<Rightarrow> string \<Rightarrow> jsval \<Rightarrow> FirstTradeJs \<Rightarrow> TraderStatsJs \<Rightarrow> TraderStatsJs" where
  "updateStatsJs StringToNumber TOP_N_THRESHOLD conditionId firstTradeTime data stats =
     (let s1 = stats\<lparr>js_marketsTraded := insert conditionId (js_marketsTraded stats)\<rparr>;
          s2 = s1\<lparr>js_totalVolume := jsadd (js_totalVolume s1) (fj_volume data)\<rparr>;
          s3 = s2\<lparr>js_tradeCount := js_tradeCount s2 + 1\<rparr>;
          timeToMarket = jssub (ToNumber StringToNumber (fj_timestamp data))
                               (ToNumber StringToNumber firstTradeTime);
          s4 = s3\<lparr>js_avgTimeToMarket :=
                 jsdiv (jsadd (jsmul (js_avgTimeToMarket s3) (Num (of_int (js_tradeCount s3 - 1))))
                              timeToMarket)
                       (Num (of_int (js_tradeCount s3)))\<rparr>;
          s5 = s4\<lparr>js_avgPositionInMarket :=
                 jsdiv (jsadd (jsmul (js_avgPositionInMarket s4) (Num (of_int (js_tradeCount s4 - 1))))
                              (Num (of_int (fj_position data))))
                       (Num (of_int (js_tradeCount s4)))\<rparr>;
          s6 = (if fj_position data = 1 then s5\<lparr>js_timesFirst := js_timesFirst s5 + 1\<rparr> else s5);
          s7 = (if fj_position data \<le> TOP_N_THRESHOLD
                then s6\<lparr>js_timesInTopN := js_timesInTopN s6 + 1\<rparr> else s6)
      in s7)"


text \<open>
  The comparator of \<^verbatim>\<open>trades.sort((a, b) => a.timestamp - b.timestamp)\<close>: the
  subtraction converts both timestamps to numbers.
\<close>

definition timestampCmp :: "(string \<Rightarrow> jsnum) \<Rightarrow> NormTrade \<Rightarrow> NormTrade \<Rightarrow> jsnum" where
  "timestampCmp StringToNumber a b =
     jssub (ToNumber StringToNumber (n_timestamp a)) (ToNumber StringToNumber (n_timestamp b))"




subsection \<open>The statistics over finite numbers\<close>

text \<open>
  When the timestamps are integers and the volumes finite numbers, as the script's
  \<^verbatim>\<open>Trade\<close> interface declares them, every number of the statistics is a finite number,
  the counts the averages divide by are positive, and the arithmetic is that of the
  rationals. \<open>FirstTradeData\<close> and \<open>TraderStats\<close> are the two records with such numbers,
  and \<open>updateStats\<close> is the update on them.
\<close>

record FirstTradeData =
  ft_timestamp :: int
  ft_volume :: rat
  ft_position :: int

record TraderStats =
  address :: string
  timesFirst :: int
  timesInTopN :: int
  totalVolume :: rat
  avgPositionInMarket :: rat
  marketsTraded :: "string set"
  avgTimeToMarket :: rat
  tradeCount :: int

definition emptyStats :: "string \<Rightarrow> TraderStats" where
  "emptyStats trader =
     \<lparr>address = trader, timesFirst = 0, timesInTopN = 0, totalVolume = 0,
      avgPositionInMarket = 0, marketsTraded = {}, avgTimeToMarket = 0, tradeCount = 0\<rparr>"

text \<open>
  The update of one trader's global statistics with the trader's record of one market
  (the body of \<^verbatim>\<open>for (const [trader, data] of traderFirstTrade.entries())\<close> after the
  lookup). \<^verbatim>\<open>tradeCount\<close> is incremented first, so the two running averages divide by
  the new count.
\<close>

definition updateStats :: "int \<Rightarrow> string \<Rightarrow> int \<Rightarrow> FirstTradeData \<Rightarrow> TraderStats \<Rightarrow> TraderStats" where
  "updateStats TOP_N_THRESHOLD conditionId firstTradeTime data stats =
     (let s1 = stats\<lparr>marketsTraded := insert conditionId (marketsTraded stats)\<rparr>;
          s2 = s1\<lparr>totalVolume := totalVolume s1 + ft_volume data\<rparr>;
          s3 = s2\<lparr>tradeCount := tradeCount s2 + 1\<rparr>;
          timeToMarket = ft_timestamp data - firstTradeTime;
          s4 = s3\<lparr>avgTimeToMarket :=
                 (avgTimeToMarket s3 * of_int (tradeCount s3 - 1) + of_int timeToMarket)
                   / of_int (tradeCount s3)\<rparr>;
          s5 = s4\<lparr>avgPositionInMarket :=
                 (avgPositionInMarket s4 * of_int (tradeCount s4 - 1) + of_int (ft_position data))
                   / of_int (tradeCount s4)\<rparr>;
          s6 = (if ft_position data = 1 then s5\<lparr>timesFirst := timesFirst s5 + 1\<rparr> else s5);
          s7 = (if ft_position data \<le> TOP_N_THRESHOLD
                then s6\<lparr>timesInTopN := timesInTopN s6 + 1\<rparr> else s6)
      in s7)"

text \<open>The records over finite numbers, as the values the script holds.\<close>

definition dataJs :: "FirstTradeData \<Rightarrow> FirstTradeJs" where
  "dataJs d =
     \<lparr>fj_timestamp = JNumber (Num (of_int (ft_timestamp d))), fj_volume = Num (ft_volume d),
      fj_position = ft_position d\<rparr>"

definition statsJs :: "TraderStats \<Rightarrow> TraderStatsJs" where
  "statsJs s =
     \<lparr>js_address = address s, js_timesFirst = timesFirst s, js_timesInTopN = timesInTopN s,
      js_totalVolume = Num (totalVolume s),
      js_avgPositionInMarket = Num (avgPositionInMarket s),
      js_marketsTraded = marketsTraded s, js_avgTimeToMarket = Num (avgTimeToMarket s),
      js_tradeCount = tradeCount s\<rparr>"

subsection \<open>The ranker\<close>

text \<open>The comparator of \<^verbatim>\<open>rankTraders\<close> and the function itself.\<close>

definition rankCmp :: "TraderStats \<Rightarrow> TraderStats \<Rightarrow> rat" where
  "rankCmp a b =
     (if timesFirst b \<noteq> timesFirst a then of_int (timesFirst b - timesFirst a)
      else if timesInTopN b \<noteq> timesInTopN a then of_int (timesInTopN b - timesInTopN a)
      else totalVolume b - totalVolume a)"

definition rankTraders :: "int \<Rightarrow> TraderStats jsmap \<Rightarrow> TraderStats list" where
  "rankTraders MIN_FIRST_COUNT traderStats =
     jsSort rankCmp
       (filter (\<lambda>t. timesFirst t \<ge> MIN_FIRST_COUNT \<or> timesInTopN t \<ge> MIN_FIRST_COUNT * 2)
          (map snd traderStats))"

subsection \<open>The samples folded into one trader's statistics\<close>

text \<open>
  The samples a trader's statistics have folded, in order: one market record and that
  market's earliest timestamp per step.
\<close>

definition foldStats :: "int \<Rightarrow> string \<Rightarrow> (string \<times> int \<times> FirstTradeData) list \<Rightarrow> TraderStats" where
  "foldStats TOP_N_THRESHOLD trader steps =
     foldl (\<lambda>stats (conditionId, firstTradeTime, data).
              updateStats TOP_N_THRESHOLD conditionId firstTradeTime data stats)
       (emptyStats trader) steps"

definition mean :: "rat list \<Rightarrow> rat" where
  "mean xs = (if xs = [] then 0 else sum_list xs / of_nat (length xs))"

subsection \<open>The ranking order, on the keys\<close>

definition qualifies :: "int \<Rightarrow> TraderStats \<Rightarrow> bool" where
  "qualifies MIN_FIRST_COUNT t =
     (timesFirst t \<ge> MIN_FIRST_COUNT \<or> timesInTopN t \<ge> MIN_FIRST_COUNT * 2)"



section \<open>The trader comparison: matching trades and leadership summaries\<close>

record Trade =
  trade_id :: string
  timestamp :: int
  market :: string
  conditionId :: string
  asset :: string
  side :: Side
  price :: rat
  usdcSize :: rat
  trade_size :: rat
  outcome :: string
  transactionHash :: "string option"

record TraderTrades =
  tt_address :: string
  tt_trades :: "Trade list"

text \<open>An element of \<^verbatim>\<open>MatchedTrade.traderTrades\<close>: a trader's first trade in one market.\<close>

record TraderFirst =
  tf_address :: string
  tf_trade :: Trade
  tf_timestamp :: int
  tf_side :: Side
  tf_price :: rat
  tf_usdcSize :: rat

text \<open>An element of \<^verbatim>\<open>MatchedTrade.timeDiffs\<close>: the gap record of one pair.\<close>

record TimeDiff =
  trader1 :: string
  trader2 :: string
  diffSeconds :: int
  leader :: string

record MatchedTrade =
  mt_conditionId :: string
  mt_market :: string
  mt_outcome :: string
  traderTrades :: "TraderFirst list"
  timeDiffs :: "TimeDiff list"

record ComparisonSummary =
  trader :: string
  totalTrades :: int
  matchedTrades :: int
  cs_timesFirst :: int
  avgLeadTimeSeconds :: jsnum
  avgFollowTimeSeconds :: jsnum

text \<open>
  The loops of the matcher are \<open>forOf\<close> loops whose body can throw. Reading a property of
  \<^verbatim>\<open>undefined\<close> is the only way the functions below can throw, so \<open>None\<close> stands for
  that \<^verbatim>\<open>TypeError\<close> throughout.
\<close>

subsection \<open>Grouping by condition and trader\<close>

text \<open>
  The body of the inner loop of the grouping pass: create the condition's map and the
  trader's array when absent, then push the trade onto the array. The two
  \<^verbatim>\<open>get(...)!\<close> results are used at once, so an absent key would throw.
\<close>

definition groupTrade ::
  "string \<Rightarrow> Trade list jsmap jsmap \<Rightarrow> Trade \<Rightarrow> Trade list jsmap jsmap option" where
  "groupTrade addr tradesByCondition trade =
     (let tbc = (if \<not> map_has tradesByCondition (conditionId trade)
                 then map_set tradesByCondition (conditionId trade) []
                 else tradesByCondition)
      in do {
        conditionMap \<leftarrow> map_get tbc (conditionId trade);
        let cm = (if \<not> map_has conditionMap addr then map_set conditionMap addr []
                  else conditionMap);
        arr \<leftarrow> map_get cm addr;
        Some (map_set tbc (conditionId trade) (map_set cm addr (arr @ [trade])))
      })"

definition groupTrader ::
  "Trade list jsmap jsmap \<Rightarrow> TraderTrades \<Rightarrow> Trade list jsmap jsmap option" where
  "groupTrader tradesByCondition t =
     forOf (groupTrade (tt_address t)) tradesByCondition (tt_trades t)"

definition groupAll :: "TraderTrades list \<Rightarrow> Trade list jsmap jsmap option" where
  "groupAll traderData = forOf groupTrader [] traderData"

subsection \<open>One condition\<close>

text \<open>
  The body of \<^verbatim>\<open>for (const [address, trades] of traderMap.entries())\<close>: the array is
  sorted by timestamp and its element 0 is the trader's first trade; on an empty array
  element 0 is \<^verbatim>\<open>undefined\<close> and reading its timestamp throws.
\<close>

definition firstTradeOf :: "TraderFirst list \<Rightarrow> string \<times> Trade list \<Rightarrow> TraderFirst list option" where
  "firstTradeOf allTraderTrades entry =
     (case jsSort (\<lambda>a b. timestamp a - timestamp b) (snd entry) of
        [] \<Rightarrow> None
      | firstTradeForCondition # _ \<Rightarrow>
          Some (allTraderTrades @
            [\<lparr>tf_address = fst entry, tf_trade = firstTradeForCondition,
              tf_timestamp = timestamp firstTradeForCondition,
              tf_side = side firstTradeForCondition,
              tf_price = price firstTradeForCondition,
              tf_usdcSize = usdcSize firstTradeForCondition\<rparr>]))"

text \<open>The body of the pair loops: the gap record of \<open>t1\<close> and \<open>t2\<close>, when within the window.\<close>

definition pairDiff :: "int \<Rightarrow> TraderFirst \<Rightarrow> TraderFirst \<Rightarrow> TimeDiff list" where
  "pairDiff timeWindowSeconds t1 t2 =
     (let diff = tf_timestamp t2 - tf_timestamp t1 in
      if \<bar>diff\<bar> \<le> timeWindowSeconds
      then [\<lparr>trader1 = tf_address t1, trader2 = tf_address t2, diffSeconds = diff,
             leader = (if diff \<le> 0 then tf_address t2 else tf_address t1)\<rparr>]
      else [])"

text \<open>
  \<^verbatim>\<open>for (i = 0; ...) for (j = i + 1; ...)\<close>: the element at \<open>i\<close> against every later
  element in order, then the same for the rest.
\<close>

fun pairLoop :: "int \<Rightarrow> TraderFirst list \<Rightarrow> TimeDiff list" where
  "pairLoop timeWindowSeconds [] = []"
| "pairLoop timeWindowSeconds (t1 # rest) =
     concat (map (pairDiff timeWindowSeconds t1) rest) @ pairLoop timeWindowSeconds rest"

text \<open>
  The body of \<^verbatim>\<open>for (const [conditionId, traderMap] of tradesByCondition.entries())\<close>.
  \<^verbatim>\<open>firstTrade\<close> is read before the arrays are sorted, from the first trader's array,
  and is dereferenced only when the market is pushed.
\<close>

definition matchCondition ::
  "int \<Rightarrow> MatchedTrade list \<Rightarrow> string \<times> Trade list jsmap \<Rightarrow> MatchedTrade list option" where
  "matchCondition timeWindowSeconds matched entry =
     (let cid = fst entry; traderMap = snd entry in
      if length traderMap < 2 then Some matched
      else do {
        let tradersInvolved = map fst traderMap;
        firstArr \<leftarrow> map_get traderMap (hd tradersInvolved);
        let firstTrade = (case firstArr of [] \<Rightarrow> None | t # _ \<Rightarrow> Some t);
        allTraderTrades \<leftarrow> forOf firstTradeOf [] traderMap;
        let diffs = pairLoop timeWindowSeconds allTraderTrades;
        if length diffs > 0
        then do {
          ft \<leftarrow> firstTrade;
          Some (matched @
            [\<lparr>mt_conditionId = cid, mt_market = market ft, mt_outcome = outcome ft,
              traderTrades = allTraderTrades, timeDiffs = diffs\<rparr>])
        }
        else Some matched
      })"

subsection \<open>The final order\<close>

text \<open>
  \<^verbatim>\<open>Math.min(...xs)\<close>: the least element, and \<^verbatim>\<open>Infinity\<close> (here \<open>None\<close>) for no
  arguments. The comparator is \<^verbatim>\<open>bTime - aTime\<close>; with an infinite operand the
  difference is \<^verbatim>\<open>Infinity\<close>, \<^verbatim>\<open>-Infinity\<close> or \<^verbatim>\<open>NaN\<close>, which sort reads as
  positive, negative and zero.
\<close>

fun mathMin :: "int list \<Rightarrow> int option" where
  "mathMin [] = None"
| "mathMin (x # xs) = (case mathMin xs of None \<Rightarrow> Some x | Some y \<Rightarrow> Some (min x y))"

definition matchedCmp :: "MatchedTrade \<Rightarrow> MatchedTrade \<Rightarrow> int" where
  "matchedCmp a b =
     (let aTime = mathMin (map tf_timestamp (traderTrades a));
          bTime = mathMin (map tf_timestamp (traderTrades b))
      in case (bTime, aTime) of
           (Some y, Some x) \<Rightarrow> y - x
         | (None, Some x) \<Rightarrow> 1
         | (Some y, None) \<Rightarrow> - 1
         | (None, None) \<Rightarrow> 0)"

definition findMatchingTrades :: "int \<Rightarrow> TraderTrades list \<Rightarrow> MatchedTrade list option" where
  "findMatchingTrades TIME_WINDOW_HOURS traderData =
     do {
       tradesByCondition \<leftarrow> groupAll traderData;
       let timeWindowSeconds = TIME_WINDOW_HOURS * 3600;
       matched \<leftarrow> forOf (matchCondition timeWindowSeconds) [] tradesByCondition;
       Some (jsSort matchedCmp matched)
     }"

subsection \<open>Summaries\<close>

text \<open>
  The accumulators of one trader in \<^verbatim>\<open>calculateSummaries\<close>, and the two loop bodies that
  update them. The gaps are integers, so the totals and the counts are; the two averages
  are quotients by JavaScript's division, which gives \<^verbatim>\<open>NaN\<close> for zero by zero.
\<close>

record Tally =
  ta_timesFirst :: int
  ta_totalLeadTime :: int
  ta_leadCount :: int
  ta_totalFollowTime :: int
  ta_followCount :: int
  ta_matchedTradeCount :: int

definition tallyDiff :: "string \<Rightarrow> Tally \<Rightarrow> TimeDiff \<Rightarrow> Tally" where
  "tallyDiff addr acc d =
     (if trader1 d \<noteq> addr \<and> trader2 d \<noteq> addr then acc
      else if leader d = addr
      then acc\<lparr>ta_timesFirst := ta_timesFirst acc + 1,
               ta_totalLeadTime := ta_totalLeadTime acc + \<bar>diffSeconds d\<bar>,
               ta_leadCount := ta_leadCount acc + 1\<rparr>
      else acc\<lparr>ta_totalFollowTime := ta_totalFollowTime acc + \<bar>diffSeconds d\<bar>,
               ta_followCount := ta_followCount acc + 1\<rparr>)"

definition tallyMatch :: "string \<Rightarrow> Tally \<Rightarrow> MatchedTrade \<Rightarrow> Tally" where
  "tallyMatch addr acc m =
     (case find (\<lambda>t. tf_address t = addr) (traderTrades m) of
        None \<Rightarrow> acc
      | Some traderInMatch \<Rightarrow>
          foldl (tallyDiff addr)
            (acc\<lparr>ta_matchedTradeCount := ta_matchedTradeCount acc + 1\<rparr>) (timeDiffs m))"

definition summarize :: "MatchedTrade list \<Rightarrow> TraderTrades \<Rightarrow> ComparisonSummary" where
  "summarize matched t =
     (let acc = foldl (tallyMatch (tt_address t))
                  \<lparr>ta_timesFirst = 0, ta_totalLeadTime = 0, ta_leadCount = 0,
                   ta_totalFollowTime = 0, ta_followCount = 0, ta_matchedTradeCount = 0\<rparr>
                  matched
      in \<lparr>trader = tt_address t,
          totalTrades = int (length (tt_trades t)),
          matchedTrades = ta_matchedTradeCount acc,
          cs_timesFirst = ta_timesFirst acc,
          avgLeadTimeSeconds =
            (if ta_leadCount acc > 0
             then jsdiv (Num (of_int (ta_totalLeadTime acc))) (Num (of_int (ta_leadCount acc)))
             else Num 0),
          avgFollowTimeSeconds =
            (if ta_followCount acc > 0
             then jsdiv (Num (of_int (ta_totalFollowTime acc))) (Num (of_int (ta_followCount acc)))
             else Num 0)\<rparr>)"

definition calculateSummaries :: "MatchedTrade list \<Rightarrow> TraderTrades list \<Rightarrow> ComparisonSummary list" where
  "calculateSummaries matched traderData =
     jsSort (\<lambda>a b. cs_timesFirst b - cs_timesFirst a) (map (summarize matched) traderData)"

section \<open>The first-trader finder: the traders of one market in order of first trade\<close>

text \<open>
  The \<^verbatim>\<open>Trade\<close> object of the first-trader finder, with the values it holds at run time;
  \<^verbatim>\<open>proxyWallet\<close> comes from \<^verbatim>\<open>t.proxyWallet?.toLowerCase()\<close>.
\<close>

record NormMarketTrade =
  nm_id :: jsval
  nm_timestamp :: jsval
  nm_proxyWallet :: "string option"
  nm_side :: jsval
  nm_price :: jsval
  nm_size :: jsval
  nm_usdcSize :: jsnum



record TraderOrderData =
  firstTrade :: NormMarketTrade
  to_totalVolume :: jsnum
  to_tradeCount :: int

text \<open>
  The body of \<^verbatim>\<open>for (const trade of sortedTrades)\<close> in \<^verbatim>\<open>main\<close>: a trade without a
  wallet is skipped, the first trade of a wallet creates its record, and a later trade
  adds to the volume and the count.
\<close>

definition traderOrderStep :: "TraderOrderData jsmap \<Rightarrow> NormMarketTrade \<Rightarrow> TraderOrderData jsmap" where
  "traderOrderStep traderOrder trade =
     (if falsy (nm_proxyWallet trade) then traderOrder
      else let w = the (nm_proxyWallet trade) in
        (case map_get traderOrder w of
           None \<Rightarrow>
             map_set traderOrder w
               \<lparr>firstTrade = trade, to_totalVolume = nm_usdcSize trade, to_tradeCount = 1\<rparr>
         | Some data \<Rightarrow>
             map_set traderOrder w
               (data\<lparr>to_totalVolume := jsadd (to_totalVolume data) (nm_usdcSize trade),
                     to_tradeCount := to_tradeCount data + 1\<rparr>)))"

definition traderOrderOf :: "NormMarketTrade list \<Rightarrow> TraderOrderData jsmap" where
  "traderOrderOf sortedTrades = foldl traderOrderStep [] sortedTrades"

definition marketTimestampCmp ::
  "(string \<Rightarrow> jsnum) \<Rightarrow> NormMarketTrade \<Rightarrow> NormMarketTrade \<Rightarrow> jsnum" where
  "marketTimestampCmp StringToNumber a b =
     jssub (ToNumber StringToNumber (nm_timestamp a)) (ToNumber StringToNumber (nm_timestamp b))"

text \<open>
  \<^verbatim>\<open>main\<close> from the fetched trades to the table of traders: the trades are sorted by
  timestamp before the loop. The result is \<open>None\<close> when the order of the sort is left to
  the implementation. With no trades at all \<^verbatim>\<open>main\<close> exits before the sort; the table
  is then never built, and is the empty one here.
\<close>

definition firstTraders :: "(string \<Rightarrow> jsnum) \<Rightarrow> NormMarketTrade list \<Rightarrow> TraderOrderData jsmap option" where
  "firstTraders StringToNumber trades =
     map_option traderOrderOf (jsSortBy (marketTimestampCmp StringToNumber) trades)"

section \<open>The matcher over a store of arrays\<close>

text \<open>
  \<^verbatim>\<open>findMatchingTrades\<close> pushes onto arrays and sorts arrays in place, and the arrays of
  its input are shared with the caller. To say what the call does to them, the arrays
  of trades live in a store: an array is an address, the store maps addresses to
  contents, and a new array takes the next free address. A \<^verbatim>\<open>TraderTrades\<close> object
  refers to its \<^verbatim>\<open>trades\<close> array by address. The trades themselves are never written
  to, so they stay values; so do the maps, which the function creates itself.

  Reading an address that the store does not hold has no counterpart in JavaScript; the
  operations return \<open>None\<close> for it.
\<close>

type_synonym store = "Trade list list"

record TraderRef =
  tr_address :: string
  tr_trades :: nat

definition readArray :: "nat \<Rightarrow> store \<Rightarrow> Trade list option" where
  "readArray a s = (if a < length s then Some (s ! a) else None)"

definition allocArray :: "store \<Rightarrow> nat \<times> store" where
  "allocArray s = (length s, s @ [[]])"

definition pushArray :: "nat \<Rightarrow> Trade \<Rightarrow> store \<Rightarrow> store option" where
  "pushArray a t s = (if a < length s then Some (s[a := s ! a @ [t]]) else None)"

definition sortArray :: "nat \<Rightarrow> store \<Rightarrow> store option" where
  "sortArray a s =
     (if a < length s then Some (s[a := jsSort (\<lambda>x y. timestamp x - timestamp y) (s ! a)])
      else None)"

text \<open>
  \<^verbatim>\<open>for (const trade of array)\<close> over an array of the store: the iterator reads the
  array anew at every step, so a body that pushed onto the array it iterates would
  lengthen the loop. The loop need not end; not returning is \<open>None\<close>.
\<close>

partial_function (option) forOfArray ::
  "('s \<times> store \<Rightarrow> Trade \<Rightarrow> ('s \<times> store) option) \<Rightarrow> nat \<Rightarrow> nat \<Rightarrow> 's \<times> store
     \<Rightarrow> ('s \<times> store) option" where
  "forOfArray body r i st =
     (if r < length (snd st)
      then (if i < length (snd st ! r)
            then Option.bind (body st (snd st ! r ! i)) (forOfArray body r (i + 1))
            else Some st)
      else None)"

text \<open>The grouping pass: a trader's array in the condition map is a new array.\<close>

definition groupTradeH ::
  "string \<Rightarrow> nat jsmap jsmap \<times> store \<Rightarrow> Trade \<Rightarrow> (nat jsmap jsmap \<times> store) option" where
  "groupTradeH addr st trade =
     (let tbc = (if \<not> map_has (fst st) (conditionId trade)
                 then map_set (fst st) (conditionId trade) []
                 else fst st)
      in do {
        conditionMap \<leftarrow> map_get tbc (conditionId trade);
        let new = (if \<not> map_has conditionMap addr
                   then (map_set conditionMap addr (fst (allocArray (snd st))),
                         snd (allocArray (snd st)))
                   else (conditionMap, snd st));
        arr \<leftarrow> map_get (fst new) addr;
        s \<leftarrow> pushArray arr trade (snd new);
        Some (map_set tbc (conditionId trade) (fst new), s)
      })"

definition groupTraderH ::
  "nat jsmap jsmap \<times> store \<Rightarrow> TraderRef \<Rightarrow> (nat jsmap jsmap \<times> store) option" where
  "groupTraderH st t = forOfArray (groupTradeH (tr_address t)) (tr_trades t) 0 st"

definition groupAllH :: "TraderRef list \<Rightarrow> store \<Rightarrow> (nat jsmap jsmap \<times> store) option" where
  "groupAllH traderData s = forOf groupTraderH ([], s) traderData"

text \<open>One condition: each trader's array is sorted in place and its element 0 is read.\<close>

definition firstTradeOfH ::
  "TraderFirst list \<times> store \<Rightarrow> string \<times> nat \<Rightarrow> (TraderFirst list \<times> store) option" where
  "firstTradeOfH st entry =
     do {
       s \<leftarrow> sortArray (snd entry) (snd st);
       (case s ! snd entry of
          [] \<Rightarrow> None
        | firstTradeForCondition # _ \<Rightarrow>
            Some (fst st @
              [\<lparr>tf_address = fst entry, tf_trade = firstTradeForCondition,
                tf_timestamp = timestamp firstTradeForCondition,
                tf_side = side firstTradeForCondition,
                tf_price = price firstTradeForCondition,
                tf_usdcSize = usdcSize firstTradeForCondition\<rparr>], s))
     }"

definition matchConditionH ::
  "int \<Rightarrow> MatchedTrade list \<times> store \<Rightarrow> string \<times> nat jsmap
     \<Rightarrow> (MatchedTrade list \<times> store) option" where
  "matchConditionH timeWindowSeconds st entry =
     (let cid = fst entry; traderMap = snd entry in
      if length traderMap < 2 then Some st
      else do {
        let tradersInvolved = map fst traderMap;
        firstAddr \<leftarrow> map_get traderMap (hd tradersInvolved);
        firstArr \<leftarrow> readArray firstAddr (snd st);
        let firstTrade = (case firstArr of [] \<Rightarrow> None | t # _ \<Rightarrow> Some t);
        firsts \<leftarrow> forOf firstTradeOfH ([], snd st) traderMap;
        let diffs = pairLoop timeWindowSeconds (fst firsts);
        if length diffs > 0
        then do {
          ft \<leftarrow> firstTrade;
          Some (fst st @
            [\<lparr>mt_conditionId = cid, mt_market = market ft, mt_outcome = outcome ft,
              traderTrades = fst firsts, timeDiffs = diffs\<rparr>], snd firsts)
        }
        else Some (fst st, snd firsts)
      })"

definition findMatchingTradesH ::
  "int \<Rightarrow> TraderRef list \<Rightarrow> store \<Rightarrow> (MatchedTrade list \<times> store) option" where
  "findMatchingTradesH TIME_WINDOW_HOURS traderData s =
     do {
       grouped \<leftarrow> groupAllH traderData s;
       let timeWindowSeconds = TIME_WINDOW_HOURS * 3600;
       matched \<leftarrow> forOf (matchConditionH timeWindowSeconds) ([], snd grouped) (fst grouped);
       Some (jsSort matchedCmp (fst matched), snd matched)
     }"

text \<open>The input as values: each trader with the contents of its array in a store.\<close>

definition derefTrader :: "store \<Rightarrow> TraderRef \<Rightarrow> TraderTrades" where
  "derefTrader s t = \<lparr>tt_address = tr_address t, tt_trades = s ! tr_trades t\<rparr>"

section \<open>Notions the statements are written in\<close>

subsection \<open>The matcher, read off its input\<close>

text \<open>
  The trades of address \<open>a\<close> in market \<open>c\<close>, in the order the grouping pass meets them:
  the entries of \<open>traderData\<close> with that address in order, and each entry's trades in
  order. An address is a participant of the market when it has such a trade, and its
  first-trade timestamp there is the least timestamp among them.
\<close>

definition tradesOf :: "TraderTrades list \<Rightarrow> string \<Rightarrow> string \<Rightarrow> Trade list" where
  "tradesOf traderData c a =
     filter (\<lambda>t. conditionId t = c)
       (concat (map tt_trades (filter (\<lambda>x. tt_address x = a) traderData)))"

definition participant :: "TraderTrades list \<Rightarrow> string \<Rightarrow> string \<Rightarrow> bool" where
  "participant traderData c a = (tradesOf traderData c a \<noteq> [])"

definition firstTimestamp :: "TraderTrades list \<Rightarrow> string \<Rightarrow> string \<Rightarrow> int" where
  "firstTimestamp traderData c a = Min (timestamp ` set (tradesOf traderData c a))"

subsection \<open>The grouping pass without its error branches\<close>

definition lookup2 :: "Trade list jsmap jsmap \<Rightarrow> string \<Rightarrow> string \<Rightarrow> Trade list" where
  "lookup2 tbc c a =
     (case map_of tbc c of None \<Rightarrow> []
      | Some cm \<Rightarrow> (case map_of cm a of None \<Rightarrow> [] | Some arr \<Rightarrow> arr))"

definition pushTrade :: "string \<Rightarrow> Trade list jsmap jsmap \<Rightarrow> Trade \<Rightarrow> Trade list jsmap jsmap" where
  "pushTrade addr tbc trade =
     (let cm = (case map_of tbc (conditionId trade) of None \<Rightarrow> [] | Some cm \<Rightarrow> cm);
          arr = (case map_of cm addr of None \<Rightarrow> [] | Some arr \<Rightarrow> arr)
      in AList.update (conditionId trade) (AList.update addr (arr @ [trade]) cm) tbc)"

definition groupsOf :: "TraderTrades list \<Rightarrow> Trade list jsmap jsmap" where
  "groupsOf traderData =
     foldl (\<lambda>tbc t. foldl (pushTrade (tt_address t)) tbc (tt_trades t)) [] traderData"

text \<open>
  What the grouping pass maintains: keys are distinct at both levels, no condition has
  an empty trader map, and no trader has an empty array.
\<close>

definition wfTraderMap :: "Trade list jsmap \<Rightarrow> bool" where
  "wfTraderMap cm = (cm \<noteq> [] \<and> distinct (map fst cm) \<and> [] \<notin> snd ` set cm)"

definition wfGroups :: "Trade list jsmap jsmap \<Rightarrow> bool" where
  "wfGroups tbc = (distinct (map fst tbc) \<and> list_all wfTraderMap (map snd tbc))"

subsection \<open>One condition without its error branches\<close>

definition firstOf :: "string \<times> Trade list \<Rightarrow> TraderFirst" where
  "firstOf entry =
     (let t = hd (jsSort (\<lambda>a b. timestamp a - timestamp b) (snd entry)) in
      \<lparr>tf_address = fst entry, tf_trade = t, tf_timestamp = timestamp t, tf_side = side t,
       tf_price = price t, tf_usdcSize = usdcSize t\<rparr>)"

definition matchOne :: "int \<Rightarrow> string \<times> Trade list jsmap \<Rightarrow> MatchedTrade list" where
  "matchOne w entry =
     (let cm = snd entry; ts = map firstOf cm; ft = hd (snd (hd cm)) in
      if length cm < 2 \<or> pairLoop w ts = [] then []
      else [\<lparr>mt_conditionId = fst entry, mt_market = market ft, mt_outcome = outcome ft,
             traderTrades = ts, timeDiffs = pairLoop w ts\<rparr>])"

text \<open>The matched markets in the order of the conditions, before the final sort.\<close>

definition matchedOf :: "int \<Rightarrow> TraderTrades list \<Rightarrow> MatchedTrade list" where
  "matchedOf h traderData = concat (map (matchOne (h * 3600)) (groupsOf traderData))"

text \<open>
  The gap record of the ordered pair \<open>(a, b)\<close> in market \<open>c\<close>, read off the input, and
  the window test on the pair.
\<close>

definition gapOf :: "TraderTrades list \<Rightarrow> string \<Rightarrow> string \<Rightarrow> string \<Rightarrow> TimeDiff" where
  "gapOf traderData c a b =
     (let diff = firstTimestamp traderData c b - firstTimestamp traderData c a in
      \<lparr>trader1 = a, trader2 = b, diffSeconds = diff, leader = (if diff \<le> 0 then b else a)\<rparr>)"

definition withinWindow :: "int \<Rightarrow> TraderTrades list \<Rightarrow> string \<Rightarrow> string \<Rightarrow> string \<Rightarrow> bool" where
  "withinWindow h traderData c a b =
     (\<bar>firstTimestamp traderData c b - firstTimestamp traderData c a\<bar> \<le> h * 3600)"

text \<open>The earliest first-trade timestamp among the participants a matched market lists.\<close>

definition earliest :: "MatchedTrade \<Rightarrow> int" where
  "earliest m = Min (set (map tf_timestamp (traderTrades m)))"

text \<open>
  The addresses that trade in market \<open>c\<close>, in the order the grouping pass first meets
  them: this is the key order of the market's trader map, and with it the order of the
  pair loops.
\<close>

definition appendNew :: "'a list \<Rightarrow> 'a \<Rightarrow> 'a list" where
  "appendNew ks a = (if a \<in> set ks then ks else ks @ [a])"

definition seenOrder :: "TraderTrades list \<Rightarrow> string \<Rightarrow> string list" where
  "seenOrder traderData c =
     foldl appendNew []
       (concat (map (\<lambda>x. map (\<lambda>t. tt_address x) (filter (\<lambda>t. conditionId t = c) (tt_trades x)))
                  traderData))"

definition keys2 :: "Trade list jsmap jsmap \<Rightarrow> string \<Rightarrow> string list" where
  "keys2 tbc c = map fst (case map_of tbc c of None \<Rightarrow> [] | Some cm \<Rightarrow> cm)"

text \<open>The leaders of all gap records of a result, market by market.\<close>

definition leaders :: "MatchedTrade list option \<Rightarrow> string list list option" where
  "leaders r = map_option (map (\<lambda>m. map leader (timeDiffs m))) r"

subsection \<open>The gaps behind a summary\<close>

text \<open>
  All gap records of a list of matched markets; the absolute gaps of those a trader
  leads, and of those the trader is part of without leading.
\<close>

definition allGaps :: "MatchedTrade list \<Rightarrow> TimeDiff list" where
  "allGaps ms = concat (map timeDiffs ms)"

definition leadGaps :: "MatchedTrade list \<Rightarrow> string \<Rightarrow> int list" where
  "leadGaps ms a = map (\<lambda>d. \<bar>diffSeconds d\<bar>) (filter (\<lambda>d. leader d = a) (allGaps ms))"

definition followGaps :: "MatchedTrade list \<Rightarrow> string \<Rightarrow> int list" where
  "followGaps ms a =
     map (\<lambda>d. \<bar>diffSeconds d\<bar>)
       (filter (\<lambda>d. (trader1 d = a \<or> trader2 d = a) \<and> leader d \<noteq> a) (allGaps ms))"

text \<open>
  A gap record is well formed in its market when both traders are listed participants
  and the leader is one of the two. \<^verbatim>\<open>findMatchingTrades\<close> builds only such records.
\<close>

definition wfGap :: "MatchedTrade \<Rightarrow> TimeDiff \<Rightarrow> bool" where
  "wfGap m d =
     (trader1 d \<in> set (map tf_address (traderTrades m))
      \<and> trader2 d \<in> set (map tf_address (traderTrades m))
      \<and> (leader d = trader1 d \<or> leader d = trader2 d))"

definition wfMatched :: "MatchedTrade list \<Rightarrow> bool" where
  "wfMatched ms = list_all (\<lambda>m. list_all (wfGap m) (timeDiffs m)) ms"

text \<open>The gap records the loops of \<^verbatim>\<open>calculateSummaries\<close> count for a trader.\<close>

definition countedGaps :: "string \<Rightarrow> MatchedTrade \<Rightarrow> TimeDiff list" where
  "countedGaps a m =
     (if find (\<lambda>t. tf_address t = a) (traderTrades m) = None then []
      else filter (\<lambda>d. trader1 d = a \<or> trader2 d = a) (timeDiffs m))"

definition emptyTally :: Tally where
  "emptyTally =
     \<lparr>ta_timesFirst = 0, ta_totalLeadTime = 0, ta_leadCount = 0,
      ta_totalFollowTime = 0, ta_followCount = 0, ta_matchedTradeCount = 0\<rparr>"

text \<open>
  The accumulators of trader \<open>a\<close> after the loop over the matched markets, and the two
  quotients total by count as JavaScript's division gives them when nothing guards it.
\<close>

definition tallyOf :: "MatchedTrade list \<Rightarrow> string \<Rightarrow> Tally" where
  "tallyOf ms a = foldl (tallyMatch a) emptyTally ms"

definition leadQuotient :: "MatchedTrade list \<Rightarrow> string \<Rightarrow> jsnum" where
  "leadQuotient ms a =
     jsdiv (Num (of_int (ta_totalLeadTime (tallyOf ms a)))) (Num (of_int (ta_leadCount (tallyOf ms a))))"

definition followQuotient :: "MatchedTrade list \<Rightarrow> string \<Rightarrow> jsnum" where
  "followQuotient ms a =
     jsdiv (Num (of_int (ta_totalFollowTime (tallyOf ms a))))
           (Num (of_int (ta_followCount (tallyOf ms a))))"

subsection \<open>First trades, read off the trades\<close>

text \<open>
  The trades of wallet \<open>w\<close> among the trades of a market, in order, for the two scripts.
\<close>

definition tradesBy :: "string \<Rightarrow> NormMarketTrade list \<Rightarrow> NormMarketTrade list" where
  "tradesBy w trades = filter (\<lambda>t. nm_proxyWallet t = Some w) trades"

definition ownedBy :: "string \<Rightarrow> NormTrade list \<Rightarrow> NormTrade list" where
  "ownedBy w trades = filter (\<lambda>t. n_owner t = Some w) trades"

text \<open>
  The traders of a market in the order in which the loop first meets them, again for the
  two scripts.
\<close>

definition walletsSeen :: "NormMarketTrade list \<Rightarrow> string list" where
  "walletsSeen trades =
     foldl appendNew []
       (map (\<lambda>t. the (nm_proxyWallet t)) (filter (\<lambda>t. \<not> falsy (nm_proxyWallet t)) trades))"

definition ownersSeen :: "NormTrade list \<Rightarrow> string list" where
  "ownersSeen trades =
     foldl appendNew []
       (map (\<lambda>t. the (n_owner t)) (filter (\<lambda>t. \<not> falsy (n_owner t)) trades))"

text \<open>
  What a loop of \<^verbatim>\<open>+=\<close> computes from a first value and the later ones: the values
  added up from the left.
\<close>

definition jsSum :: "jsnum list \<Rightarrow> jsnum" where
  "jsSum xs = foldl jsadd (hd xs) (tl xs)"

text \<open>
  A number is finite when it is neither an infinity nor \<^verbatim>\<open>NaN\<close>. \<open>hasTime\<close> says that
  the timestamp of a trade converts to a finite number, and \<open>timeOf\<close> is that number.
\<close>

fun finiteNum :: "jsnum \<Rightarrow> bool" where
  "finiteNum (Num r) = True"
| "finiteNum PosInf = False"
| "finiteNum NegInf = False"
| "finiteNum NaN = False"

fun numOf :: "jsnum \<Rightarrow> rat" where
  "numOf (Num r) = r"
| "numOf PosInf = 0"
| "numOf NegInf = 0"
| "numOf NaN = 0"

definition hasTime :: "(string \<Rightarrow> jsnum) \<Rightarrow> NormTrade \<Rightarrow> bool" where
  "hasTime sn t = finiteNum (ToNumber sn (n_timestamp t))"

definition timeOf :: "(string \<Rightarrow> jsnum) \<Rightarrow> NormTrade \<Rightarrow> rat" where
  "timeOf sn t = numOf (ToNumber sn (n_timestamp t))"

definition marketHasTime :: "(string \<Rightarrow> jsnum) \<Rightarrow> NormMarketTrade \<Rightarrow> bool" where
  "marketHasTime sn t = finiteNum (ToNumber sn (nm_timestamp t))"

definition marketTimeOf :: "(string \<Rightarrow> jsnum) \<Rightarrow> NormMarketTrade \<Rightarrow> rat" where
  "marketTimeOf sn t = numOf (ToNumber sn (nm_timestamp t))"

subsection \<open>Statistics apart from the time to market\<close>








subsection \<open>What the store keeps during a call\<close>

text \<open>
  The addresses a condition map holds, and the invariant of a store \<open>s\<close> that started as
  \<open>s0\<close>: the arrays of \<open>s0\<close> are still there unchanged, and the addresses of the map are
  later ones, in the store, with non-empty arrays.
\<close>

definition addrsOf :: "nat jsmap jsmap \<Rightarrow> nat set" where
  "addrsOf tbc = {a. \<exists>c cm k. (c, cm) \<in> set tbc \<and> (k, a) \<in> set cm}"

definition storeInv :: "store \<Rightarrow> nat set \<Rightarrow> store \<Rightarrow> bool" where
  "storeInv s0 A s =
     (length s0 \<le> length s \<and> take (length s0) s = s0
      \<and> (\<forall>a\<in>A. length s0 \<le> a \<and> a < length s \<and> s ! a \<noteq> []))"

definition pushTradeH :: "string \<Rightarrow> nat jsmap jsmap \<times> store \<Rightarrow> Trade \<Rightarrow> nat jsmap jsmap \<times> store" where
  "pushTradeH addr st trade =
     (let cm = (case map_of (fst st) (conditionId trade) of None \<Rightarrow> [] | Some cm \<Rightarrow> cm) in
      case map_of cm addr of
        None \<Rightarrow>
          (AList.update (conditionId trade) (AList.update addr (length (snd st)) cm) (fst st),
           snd st @ [[trade]])
      | Some a \<Rightarrow>
          (AList.update (conditionId trade) cm (fst st), (snd st)[a := snd st ! a @ [trade]]))"

subsection \<open>The condition map of the store as a map of values\<close>

text \<open>
  A condition map over addresses, read in a store: every address is replaced by the
  array it holds. \<open>addrList\<close> lists the addresses of a condition map, and \<open>tbcInv\<close> says
  that keys are distinct at both levels and that the addresses are distinct arrays of
  the store.
\<close>

definition absCm :: "store \<Rightarrow> nat jsmap \<Rightarrow> Trade list jsmap" where
  "absCm s cm = map (\<lambda>e. (fst e, s ! snd e)) cm"

definition absTbc :: "store \<Rightarrow> nat jsmap jsmap \<Rightarrow> Trade list jsmap jsmap" where
  "absTbc s tbc = map (\<lambda>e. (fst e, absCm s (snd e))) tbc"

definition addrList :: "nat jsmap jsmap \<Rightarrow> nat list" where
  "addrList tbc = concat (map (\<lambda>e. map snd (snd e)) tbc)"

definition tbcInv :: "store \<Rightarrow> nat jsmap jsmap \<Rightarrow> bool" where
  "tbcInv s tbc =
     (distinct (map fst tbc) \<and> list_all (\<lambda>e. distinct (map fst (snd e))) tbc
      \<and> distinct (addrList tbc) \<and> list_all (\<lambda>a. a < length s \<and> s ! a \<noteq> []) (addrList tbc))"

section \<open>Example inputs\<close>

text \<open>A trade in market \<open>c\<close> at time \<open>ts\<close>; the other fields play no part in matching.\<close>

definition mkTrade :: "string \<Rightarrow> int \<Rightarrow> Trade" where
  "mkTrade c ts =
     \<lparr>trade_id = ''t'', timestamp = ts, market = ''slug'', conditionId = c, asset = ''asset'',
      side = BUY, price = 1 / 2, usdcSize = 10, trade_size = 20, outcome = ''Yes'',
      transactionHash = None\<rparr>"

text \<open>
  Two traders in market \<open>M1\<close>: first trades 60 seconds apart, 3900 seconds apart, and at
  the same second in both supply orders.
\<close>

definition scenarioNear :: "TraderTrades list" where
  "scenarioNear =
     [\<lparr>tt_address = ''0xaaa'', tt_trades = [mkTrade ''M1'' 100]\<rparr>,
      \<lparr>tt_address = ''0xbbb'', tt_trades = [mkTrade ''M1'' 160]\<rparr>]"

definition scenarioFar :: "TraderTrades list" where
  "scenarioFar =
     [\<lparr>tt_address = ''0xaaa'', tt_trades = [mkTrade ''M1'' 100]\<rparr>,
      \<lparr>tt_address = ''0xbbb'', tt_trades = [mkTrade ''M1'' 4000]\<rparr>]"

definition scenarioTie :: "TraderTrades list" where
  "scenarioTie =
     [\<lparr>tt_address = ''0xaaa'', tt_trades = [mkTrade ''M1'' 100]\<rparr>,
      \<lparr>tt_address = ''0xbbb'', tt_trades = [mkTrade ''M1'' 100]\<rparr>]"

definition scenarioTieSwapped :: "TraderTrades list" where
  "scenarioTieSwapped =
     [\<lparr>tt_address = ''0xbbb'', tt_trades = [mkTrade ''M1'' 100]\<rparr>,
      \<lparr>tt_address = ''0xaaa'', tt_trades = [mkTrade ''M1'' 100]\<rparr>]"

text \<open>Two traders in two markets; \<open>M2\<close> starts later than \<open>M1\<close>.\<close>

definition scenarioTwoMarkets :: "TraderTrades list" where
  "scenarioTwoMarkets =
     [\<lparr>tt_address = ''0xaaa'', tt_trades = [mkTrade ''M1'' 100, mkTrade ''M2'' 500]\<rparr>,
      \<lparr>tt_address = ''0xbbb'', tt_trades = [mkTrade ''M1'' 160, mkTrade ''M2'' 520]\<rparr>]"

text \<open>
  Five traders for the ranker: \<open>0xaaa\<close> and \<open>0xccc\<close> agree on all three keys, \<open>0xbbb\<close>
  qualifies through its top-N count only, and \<open>0xddd\<close> does not qualify for a minimum
  of 3.
\<close>

definition mkStats :: "string \<Rightarrow> int \<Rightarrow> int \<Rightarrow> rat \<Rightarrow> TraderStats" where
  "mkStats a first topN vol =
     \<lparr>address = a, timesFirst = first, timesInTopN = topN, totalVolume = vol,
      avgPositionInMarket = 1, marketsTraded = {}, avgTimeToMarket = 0, tradeCount = 6\<rparr>"

definition rankExample :: "TraderStats jsmap" where
  "rankExample =
     [(''0xaaa'', mkStats ''0xaaa'' 3 4 10),
      (''0xbbb'', mkStats ''0xbbb'' 1 6 5),
      (''0xccc'', mkStats ''0xccc'' 3 4 10),
      (''0xddd'', mkStats ''0xddd'' 0 1 50),
      (''0xeee'', mkStats ''0xeee'' 5 5 1)]"

text \<open>The matched market and gap record that \<open>scenarioNear\<close> produces.\<close>

definition nearGap :: TimeDiff where
  "nearGap = \<lparr>trader1 = ''0xaaa'', trader2 = ''0xbbb'', diffSeconds = 60, leader = ''0xaaa''\<rparr>"

definition nearMatch :: MatchedTrade where
  "nearMatch =
     \<lparr>mt_conditionId = ''M1'', mt_market = ''slug'', mt_outcome = ''Yes'',
      traderTrades =
        [\<lparr>tf_address = ''0xaaa'', tf_trade = mkTrade ''M1'' 100, tf_timestamp = 100,
          tf_side = BUY, tf_price = 1 / 2, tf_usdcSize = 10\<rparr>,
         \<lparr>tf_address = ''0xbbb'', tf_trade = mkTrade ''M1'' 160, tf_timestamp = 160,
          tf_side = BUY, tf_price = 1 / 2, tf_usdcSize = 10\<rparr>],
      timeDiffs = [nearGap]\<rparr>"

text \<open>The matched market and gap record that \<open>scenarioTie\<close> produces.\<close>

definition tieGap :: TimeDiff where
  "tieGap = \<lparr>trader1 = ''0xaaa'', trader2 = ''0xbbb'', diffSeconds = 0, leader = ''0xbbb''\<rparr>"

definition tieMatch :: MatchedTrade where
  "tieMatch =
     \<lparr>mt_conditionId = ''M1'', mt_market = ''slug'', mt_outcome = ''Yes'',
      traderTrades =
        [\<lparr>tf_address = ''0xaaa'', tf_trade = mkTrade ''M1'' 100, tf_timestamp = 100,
          tf_side = BUY, tf_price = 1 / 2, tf_usdcSize = 10\<rparr>,
         \<lparr>tf_address = ''0xbbb'', tf_trade = mkTrade ''M1'' 100, tf_timestamp = 100,
          tf_side = BUY, tf_price = 1 / 2, tf_usdcSize = 10\<rparr>],
      timeDiffs = [tieGap]\<rparr>"

text \<open>
  Three traders and three markets: \<open>0xaaa\<close> leads \<open>0xbbb\<close> in \<open>M1\<close> and \<open>M2\<close> and follows
  both others in \<open>M3\<close>, by 90 and by 30 seconds.
\<close>

definition scenarioThree :: "TraderTrades list" where
  "scenarioThree =
     [\<lparr>tt_address = ''0xaaa'',
       tt_trades = [mkTrade ''M1'' 100, mkTrade ''M2'' 200, mkTrade ''M3'' 1090]\<rparr>,
      \<lparr>tt_address = ''0xbbb'',
       tt_trades = [mkTrade ''M1'' 150, mkTrade ''M2'' 260, mkTrade ''M3'' 1000]\<rparr>,
      \<lparr>tt_address = ''0xccc'', tt_trades = [mkTrade ''M3'' 1060]\<rparr>]"

text \<open>
  Four trades of one market in timestamp order, as the first-trader finder fetches
  them: two by \<open>0xaaa\<close>, one by \<open>0xbbb\<close> and one without a wallet.
\<close>

definition mkMarketTrade :: "string option \<Rightarrow> rat \<Rightarrow> string \<Rightarrow> rat \<Rightarrow> rat \<Rightarrow> NormMarketTrade" where
  "mkMarketTrade w ts sd p u =
     \<lparr>nm_id = JString ''t'', nm_timestamp = JNumber (Num ts), nm_proxyWallet = w,
      nm_side = JString sd, nm_price = JNumber (Num p), nm_size = JNumber (Num (u / p)),
      nm_usdcSize = Num u\<rparr>"

definition marketExample :: "NormMarketTrade list" where
  "marketExample =
     [mkMarketTrade (Some ''0xaaa'') 100 ''BUY'' (1 / 2) 10,
      mkMarketTrade None 110 ''BUY'' (1 / 2) 7,
      mkMarketTrade (Some ''0xbbb'') 120 ''SELL'' (1 / 4) 3,
      mkMarketTrade (Some ''0xaaa'') 150 ''SELL'' (3 / 4) 5]"

text \<open>The same four trades as the leader finder fetches them.\<close>

definition mkLeaderTrade :: "string option \<Rightarrow> rat \<Rightarrow> rat \<Rightarrow> NormTrade" where
  "mkLeaderTrade w ts u =
     \<lparr>n_id = JString ''t'', n_timestamp = JNumber (Num ts), n_maker = None, n_taker = None,
      n_side = JString ''BUY'', n_price = JNumber (Num (1 / 2)), n_size = JNumber (Num (2 * u)),
      n_usdcSize = Num u, n_market = ''M1'', n_asset = JString ''asset'', n_owner = w\<rparr>"

definition leaderExample :: "NormTrade list" where
  "leaderExample =
     [mkLeaderTrade (Some ''0xaaa'') 100 10,
      mkLeaderTrade None 110 7,
      mkLeaderTrade (Some ''0xbbb'') 120 3,
      mkLeaderTrade (Some ''0xaaa'') 150 5]"


definition noNumber :: "string \<Rightarrow> jsnum" where
  "noNumber s = NaN"





text \<open>
  A store with the arrays of two traders, the first not in timestamp order, and the two
  \<^verbatim>\<open>TraderTrades\<close> objects that refer to them.
\<close>

definition storeExample :: store where
  "storeExample = [[mkTrade ''M1'' 160, mkTrade ''M1'' 100], [mkTrade ''M1'' 130]]"

definition refsExample :: "TraderRef list" where
  "refsExample =
     [\<lparr>tr_address = ''0xaaa'', tr_trades = 0\<rparr>, \<lparr>tr_address = ''0xbbb'', tr_trades = 1\<rparr>]"

section \<open>Sorting with a comparator\<close>

text \<open>
  Facts about \<open>jsSort\<close> for a comparator whose sign is a total preorder: the result is a
  permutation, it is ordered, and elements the comparator cannot tell apart keep their
  input order.
\<close>

lemma mset_insertBy: "mset (insertBy cmp x xs) = add_mset x (mset xs)"
  by (induction xs) auto

lemma mset_jsSort: "mset (jsSort cmp xs) = mset xs"
  by (induction xs) (auto simp: jsSort_def mset_insertBy)

lemma set_insertBy: "set (insertBy cmp x xs) = insert x (set xs)"
  by (induction xs) auto

lemma set_jsSort: "set (jsSort cmp xs) = set xs"
  by (induction xs) (auto simp: jsSort_def set_insertBy)

lemma length_jsSort: "length (jsSort cmp xs) = length xs"
  by (metis mset_jsSort size_mset)

lemma jsSort_Nil: "jsSort cmp [] = []"
  by (simp add: jsSort_def)

lemma jsSort_Cons: "jsSort cmp (x # xs) = insertBy cmp x (jsSort cmp xs)"
  by (simp add: jsSort_def)

lemma sorted_wrt_insertBy:
  fixes cmp :: "'a \<Rightarrow> 'a \<Rightarrow> 'n::{zero,linorder}"
  assumes total: "\<And>a b. cmp a b \<le> 0 \<or> cmp b a \<le> 0"
    and trans: "\<And>a b c. cmp a b \<le> 0 \<Longrightarrow> cmp b c \<le> 0 \<Longrightarrow> cmp a c \<le> 0"
    and srt: "sorted_wrt (\<lambda>a b. cmp a b \<le> 0) xs"
  shows "sorted_wrt (\<lambda>a b. cmp a b \<le> 0) (insertBy cmp x xs)"
  using srt
proof (induction xs)
  case Nil
  show ?case by simp
next
  case (Cons y ys)
  show ?case
  proof (cases "cmp x y \<le> 0")
    case True
    have "\<forall>z\<in>set ys. cmp x z \<le> 0"
      using Cons.prems True trans by auto
    then show ?thesis using True Cons.prems by simp
  next
    case False
    then have yx: "cmp y x \<le> 0" using total [of x y] by simp
    have "sorted_wrt (\<lambda>a b. cmp a b \<le> 0) (insertBy cmp x ys)"
      using Cons.IH Cons.prems by simp
    moreover have "\<forall>z\<in>set (insertBy cmp x ys). cmp y z \<le> 0"
      using Cons.prems yx by (auto simp: set_insertBy)
    ultimately show ?thesis using False by simp
  qed
qed

lemma sorted_wrt_jsSort:
  fixes cmp :: "'a \<Rightarrow> 'a \<Rightarrow> 'n::{zero,linorder}"
  assumes total: "\<And>a b. cmp a b \<le> 0 \<or> cmp b a \<le> 0"
    and trans: "\<And>a b c. cmp a b \<le> 0 \<Longrightarrow> cmp b c \<le> 0 \<Longrightarrow> cmp a c \<le> 0"
  shows "sorted_wrt (\<lambda>a b. cmp a b \<le> 0) (jsSort cmp xs)"
proof (induction xs)
  case Nil
  show ?case by (simp add: jsSort_Nil)
next
  case (Cons x xs)
  show ?case
    unfolding jsSort_Cons
    by (rule sorted_wrt_insertBy [OF total trans Cons.IH])
qed





text \<open>A comparator that is a difference of keys sorts as the library's stable key sort.\<close>

lemma insertBy_key:
  fixes f :: "'a \<Rightarrow> 'k::{linordered_idom}"
  shows "insertBy (\<lambda>a b. f a - f b) x xs = insort_key f x xs"
  by (induction xs) auto

lemma jsSort_key:
  fixes f :: "'a \<Rightarrow> 'k::{linordered_idom}"
  shows "jsSort (\<lambda>a b. f a - f b) xs = sort_key f xs"
  by (induction xs) (auto simp: jsSort_Nil jsSort_Cons insertBy_key)

section \<open>Sorting with a comparator that subtracts converted values\<close>

lemma jssub_Num: "jssub (Num a) (Num b) = Num (a - b)"
  by (simp add: jssub_def)

lemma jssub_finite: "finiteNum x \<Longrightarrow> finiteNum y \<Longrightarrow> jssub x y = Num (numOf x - numOf y)"
  by (cases x; cases y) (simp_all add: jssub_def)

lemma jssub_self_NaN: "jssub x x \<noteq> NaN \<longleftrightarrow> finiteNum x"
  by (cases x) (simp_all add: jssub_def)

lemma sortSign_le: "sortSign (Num r) \<le> 0 \<longleftrightarrow> r \<le> 0"
  by simp

lemma insertBy_cong:
  assumes "\<And>y. y \<in> set xs \<Longrightarrow> (c x y \<le> 0) = (c' x y \<le> 0)"
  shows "insertBy c x xs = insertBy c' x xs"
  using assms by (induction xs) auto

lemma jsSort_cong:
  assumes "\<And>x y. x \<in> set xs \<Longrightarrow> y \<in> set xs \<Longrightarrow> (c x y \<le> 0) = (c' x y \<le> 0)"
  shows "jsSort c xs = jsSort c' xs"
  using assms
proof (induction xs)
  case Nil
  show ?case by (simp add: jsSort_Nil)
next
  case (Cons x xs)
  have ih: "jsSort c xs = jsSort c' xs" by (rule Cons.IH) (use Cons.prems in auto)
  have "insertBy c x (jsSort c' xs) = insertBy c' x (jsSort c' xs)"
    by (rule insertBy_cong) (use Cons.prems in \<open>auto simp: set_jsSort\<close>)
  then show ?case by (simp add: jsSort_Cons ih)
qed

lemma jsSort_short: "length xs \<le> 1 \<Longrightarrow> jsSort c xs = xs"
  by (cases xs) (simp_all add: jsSort_def)

lemma consistent_sub:
  "consistentCmp (\<lambda>a b. jssub (k a) (k b)) xs \<longleftrightarrow> list_all (\<lambda>t. finiteNum (k t)) xs"
proof
  assume c: "consistentCmp (\<lambda>a b. jssub (k a) (k b)) xs"
  have "finiteNum (k a)" if "a \<in> set xs" for a
  proof -
    have "jssub (k a) (k a) \<noteq> NaN"
      using c that unfolding consistentCmp_def list_all_iff by blast
    then show ?thesis by (simp only: jssub_self_NaN)
  qed
  then show "list_all (\<lambda>t. finiteNum (k t)) xs" by (simp add: list_all_iff)
next
  assume f: "list_all (\<lambda>t. finiteNum (k t)) xs"
  have e: "jssub (k a) (k b) = Num (numOf (k a) - numOf (k b))"
    if "a \<in> set xs" "b \<in> set xs" for a b
    using f that by (intro jssub_finite) (auto simp: list_all_iff)
  show "consistentCmp (\<lambda>a b. jssub (k a) (k b)) xs"
    unfolding consistentCmp_def list_all_iff
    by (auto simp: e)
qed

lemma sort_sub:
  assumes "list_all (\<lambda>t. finiteNum (k t)) xs"
  shows "jsSort (\<lambda>a b. sortSign (jssub (k a) (k b))) xs = sort_key (\<lambda>t. numOf (k t)) xs"
proof -
  have "jsSort (\<lambda>a b. sortSign (jssub (k a) (k b))) xs
      = jsSort (\<lambda>a b. numOf (k a) - numOf (k b)) xs"
  proof (rule jsSort_cong)
    fix x y assume "x \<in> set xs" "y \<in> set xs"
    then have "jssub (k x) (k y) = Num (numOf (k x) - numOf (k y))"
      using assms by (intro jssub_finite) (auto simp: list_all_iff)
    then show "(sortSign (jssub (k x) (k y)) \<le> 0) = (numOf (k x) - numOf (k y) \<le> 0)"
      by simp
  qed
  then show ?thesis by (simp add: jsSort_key)
qed

lemma jsSortBy_sub:
  "jsSortBy (\<lambda>a b. jssub (k a) (k b)) xs =
     (if list_all (\<lambda>t. finiteNum (k t)) xs then Some (sort_key (\<lambda>t. numOf (k t)) xs)
      else if length xs \<le> 1 then Some xs else None)"
proof (cases "list_all (\<lambda>t. finiteNum (k t)) xs")
  case True
  then show ?thesis by (simp add: jsSortBy_def consistent_sub sort_sub)
next
  case False
  then show ?thesis by (simp add: jsSortBy_def consistent_sub jsSort_short)
qed


section \<open>The online average\<close>

lemma updateStats_tradeCount:
  "tradeCount (updateStats n c f d s) = tradeCount s + 1"
  by (simp add: updateStats_def Let_def)

lemma updateStats_avgTime:
  "avgTimeToMarket (updateStats n c f d s) =
     (avgTimeToMarket s * of_int (tradeCount s) + of_int (ft_timestamp d - f))
       / of_int (tradeCount s + 1)"
  by (simp add: updateStats_def Let_def)

lemma updateStats_avgPos:
  "avgPositionInMarket (updateStats n c f d s) =
     (avgPositionInMarket s * of_int (tradeCount s) + of_int (ft_position d))
       / of_int (tradeCount s + 1)"
  by (simp add: updateStats_def Let_def)

lemma foldStats_snoc:
  "foldStats n a (steps @ [(c, f, d)]) = updateStats n c f d (foldStats n a steps)"
  by (simp add: foldStats_def)

lemma foldStats_tradeCount: "tradeCount (foldStats n a steps) = int (length steps)"
proof (induction steps rule: rev_induct)
  case Nil
  show ?case by (simp add: foldStats_def emptyStats_def)
next
  case (snoc x steps)
  obtain c f d where x: "x = (c, f, d)" by (cases x) auto
  show ?case using snoc by (simp add: x foldStats_snoc updateStats_tradeCount)
qed

lemma online_step:
  fixes A N x :: rat
  assumes "0 \<le> N"
  shows "(A * N + x) / (N + 1) * (N + 1) = A * N + x"
proof -
  have "N + 1 \<noteq> 0" using assms by linarith
  then show ?thesis by simp
qed

lemma foldStats_time_total:
  "avgTimeToMarket (foldStats n a steps) * of_nat (length steps) =
     sum_list (map (\<lambda>(c, f, d). of_int (ft_timestamp d - f)) steps)"
proof (induction steps rule: rev_induct)
  case Nil
  show ?case by simp
next
  case (snoc x steps)
  obtain c f d where x: "x = (c, f, d)" by (cases x) auto
  define N :: rat where "N = of_nat (length steps)"
  define A where "A = avgTimeToMarket (foldStats n a steps)"
  have N0: "0 \<le> N" by (simp add: N_def)
  have cnt: "(of_int (tradeCount (foldStats n a steps)) :: rat) = N"
    by (simp add: foldStats_tradeCount N_def)
  have cnt1: "(of_int (tradeCount (foldStats n a steps) + 1) :: rat) = N + 1"
    using cnt by simp
  have e1: "avgTimeToMarket (foldStats n a (steps @ [x])) =
      (A * N + of_int (ft_timestamp d - f)) / (N + 1)"
    unfolding x foldStats_snoc updateStats_avgTime cnt cnt1 A_def by (rule refl)
  have e2: "(of_nat (length (steps @ [x])) :: rat) = N + 1"
    by (simp add: N_def)
  have "avgTimeToMarket (foldStats n a (steps @ [x])) * of_nat (length (steps @ [x])) =
      (A * N + of_int (ft_timestamp d - f)) / (N + 1) * (N + 1)"
    by (simp only: e1 e2)
  also have "\<dots> = A * N + of_int (ft_timestamp d - f)"
    by (rule online_step [OF N0])
  also have "A * N = sum_list (map (\<lambda>(c, f, d). of_int (ft_timestamp d - f)) steps)"
    using snoc by (simp add: A_def N_def)
  finally show ?case by (simp add: x)
qed

lemma foldStats_pos_total:
  "avgPositionInMarket (foldStats n a steps) * of_nat (length steps) =
     sum_list (map (\<lambda>(c, f, d). of_int (ft_position d)) steps)"
proof (induction steps rule: rev_induct)
  case Nil
  show ?case by simp
next
  case (snoc x steps)
  obtain c f d where x: "x = (c, f, d)" by (cases x) auto
  define N :: rat where "N = of_nat (length steps)"
  define A where "A = avgPositionInMarket (foldStats n a steps)"
  have N0: "0 \<le> N" by (simp add: N_def)
  have cnt: "(of_int (tradeCount (foldStats n a steps)) :: rat) = N"
    by (simp add: foldStats_tradeCount N_def)
  have cnt1: "(of_int (tradeCount (foldStats n a steps) + 1) :: rat) = N + 1"
    using cnt by simp
  have e1: "avgPositionInMarket (foldStats n a (steps @ [x])) =
      (A * N + of_int (ft_position d)) / (N + 1)"
    unfolding x foldStats_snoc updateStats_avgPos cnt cnt1 A_def by (rule refl)
  have e2: "(of_nat (length (steps @ [x])) :: rat) = N + 1"
    by (simp add: N_def)
  have "avgPositionInMarket (foldStats n a (steps @ [x])) * of_nat (length (steps @ [x])) =
      (A * N + of_int (ft_position d)) / (N + 1) * (N + 1)"
    by (simp only: e1 e2)
  also have "\<dots> = A * N + of_int (ft_position d)"
    by (rule online_step [OF N0])
  also have "A * N = sum_list (map (\<lambda>(c, f, d). of_int (ft_position d)) steps)"
    using snoc by (simp add: A_def N_def)
  finally show ?case by (simp add: x)
qed

text \<open>
  C5. The running averages that \<^verbatim>\<open>analyzeMarkets\<close> keeps with
  \<open>new = (old * (n - 1) + sample) / n\<close> equal the plain arithmetic mean of the samples
  folded so far, for every finite sequence of samples, as an exact identity over the
  rationals: the time-to-market average is the mean of the differences between the
  trader's first timestamp and the market's earliest one, and the position average is
  the mean of the positions.
\<close>

theorem online_average_is_mean:
  "avgTimeToMarket (foldStats n a steps) =
     mean (map (\<lambda>(c, f, d). of_int (ft_timestamp d - f)) steps)
   \<and> avgPositionInMarket (foldStats n a steps) =
     mean (map (\<lambda>(c, f, d). of_int (ft_position d)) steps)"
proof (cases "steps = []")
  case True
  then show ?thesis by (simp add: mean_def foldStats_def emptyStats_def)
next
  case False
  then have len: "(of_nat (length steps) :: rat) \<noteq> 0" by simp
  have t: "avgTimeToMarket (foldStats n a steps) =
      sum_list (map (\<lambda>(c, f, d). of_int (ft_timestamp d - f)) steps) / of_nat (length steps)"
    using foldStats_time_total [of n a steps] len by (simp add: field_simps)
  have p: "avgPositionInMarket (foldStats n a steps) =
      sum_list (map (\<lambda>(c, f, d). of_int (ft_position d)) steps) / of_nat (length steps)"
    using foldStats_pos_total [of n a steps] len by (simp add: field_simps)
  show ?thesis using False t p by (simp add: mean_def)
qed

section \<open>The statistics over finite numbers are those of the script\<close>

text \<open>
  On statistics and market records whose numbers are finite, with a count that is not
  negative, the update of the script computes what \<open>updateStats\<close> computes, and so does
  any sequence of updates from the empty statistics.
\<close>

lemma emptyStatsJs_finite: "emptyStatsJs a = statsJs (emptyStats a)"
  by (simp add: emptyStatsJs_def statsJs_def emptyStats_def)

lemma updateStatsJs_finite:
  assumes "0 \<le> tradeCount s"
  shows "updateStatsJs sn n c (JNumber (Num (of_int f))) (dataJs d) (statsJs s)
      = statsJs (updateStats n c f d s)"
proof -
  have nz: "(of_int (tradeCount s) :: rat) + 1 \<noteq> 0"
  proof -
    have "(0 :: rat) \<le> of_int (tradeCount s)" using assms by simp
    then show ?thesis by linarith
  qed
  show ?thesis
    by (rule TraderStatsJs.equality)
      (simp_all add: updateStatsJs_def updateStats_def statsJs_def dataJs_def Let_def
        jssub_Num nz)
qed

lemma foldStats_finite:
  "foldl (\<lambda>stats (c, f, d).
            updateStatsJs sn n c (JNumber (Num (of_int f))) (dataJs d) stats)
     (emptyStatsJs a) steps
   = statsJs (foldStats n a steps)"
proof (induction steps rule: rev_induct)
  case Nil
  show ?case by (simp add: foldStats_def emptyStatsJs_finite)
next
  case (snoc x steps)
  obtain c f d where x: "x = (c, f, d)" by (cases x) auto
  have "0 \<le> tradeCount (foldStats n a steps)" by (simp add: foldStats_tradeCount)
  then show ?case
    using snoc by (simp add: x foldStats_snoc updateStatsJs_finite)
qed

section \<open>The ranker\<close>




lemma rankTraders_eq:
  "rankTraders n m = jsSort rankCmp (filter (qualifies n) (map snd m))"
proof -
  have "qualifies n = (\<lambda>t. timesFirst t \<ge> n \<or> timesInTopN t \<ge> n * 2)"
    by (rule ext) (simp add: qualifies_def)
  then show ?thesis by (simp add: rankTraders_def)
qed






section \<open>The matcher never throws\<close>

lemma forOf_total:
  assumes "\<And>s x. x \<in> set xs \<Longrightarrow> body s x = Some (f s x)"
  shows "forOf body s xs = Some (foldl f s xs)"
  using assms by (induction xs arbitrary: s) auto

lemma forOf_invariant:
  assumes "I s" and "\<And>s x. I s \<Longrightarrow> x \<in> set xs \<Longrightarrow> body s x = Some (f s x) \<and> I (f s x)"
  shows "forOf body s xs = Some (foldl f s xs) \<and> I (foldl f s xs)"
  using assms
proof (induction xs arbitrary: s)
  case Nil
  then show ?case by simp
next
  case (Cons x xs)
  have step: "body s x = Some (f s x) \<and> I (f s x)" using Cons.prems by simp
  have "forOf body (f s x) xs = Some (foldl f (f s x) xs) \<and> I (foldl f (f s x) xs)"
    by (rule Cons.IH) (use step Cons.prems in auto)
  then show ?case using step by simp
qed

lemma groupTrade_push: "groupTrade a tbc t = Some (pushTrade a tbc t)"
  by (auto simp: groupTrade_def pushTrade_def map_has_def map_get_def map_set_def Let_def
      update_conv' split: option.splits)

lemma groupTrader_push:
  "groupTrader tbc x = Some (foldl (pushTrade (tt_address x)) tbc (tt_trades x))"
  unfolding groupTrader_def by (rule forOf_total) (rule groupTrade_push)

lemma groupAll_groupsOf: "groupAll traderData = Some (groupsOf traderData)"
  unfolding groupAll_def groupsOf_def by (rule forOf_total) (rule groupTrader_push)

lemma lookup2_pushTrade:
  "lookup2 (pushTrade a tbc t) c b =
     (if c = conditionId t \<and> b = a then lookup2 tbc c b @ [t] else lookup2 tbc c b)"
  by (auto simp: lookup2_def pushTrade_def Let_def update_conv' split: option.splits)

lemma lookup2_foldl_pushTrade:
  "lookup2 (foldl (pushTrade a) tbc ts) c b =
     lookup2 tbc c b @ (if b = a then filter (\<lambda>t. conditionId t = c) ts else [])"
  by (induction ts arbitrary: tbc) (auto simp: lookup2_pushTrade)

lemma lookup2_foldl_traders:
  "lookup2 (foldl (\<lambda>tbc t. foldl (pushTrade (tt_address t)) tbc (tt_trades t)) tbc traderData) c b =
     lookup2 tbc c b @ tradesOf traderData c b"
  by (induction traderData arbitrary: tbc) (auto simp: lookup2_foldl_pushTrade tradesOf_def)

lemma lookup2_groupsOf: "lookup2 (groupsOf traderData) c a = tradesOf traderData c a"
proof -
  have "lookup2 [] c a = []" by (simp add: lookup2_def)
  then show ?thesis unfolding groupsOf_def lookup2_foldl_traders by simp
qed

lemma set_update_subset: "set (AList.update k v al) \<subseteq> insert (k, v) (set al)"
  by (induction al) auto

lemma wfTraderMap_update:
  assumes "cm = [] \<or> wfTraderMap cm" and "arr \<noteq> []"
  shows "wfTraderMap (AList.update a arr cm)"
proof -
  have d: "distinct (map fst cm)" and e: "[] \<notin> snd ` set cm"
    using assms(1) by (auto simp: wfTraderMap_def)
  have "[] \<notin> snd ` set (AList.update a arr cm)"
    using set_update_subset [of a arr cm] e assms(2) by force
  then show ?thesis
    using d by (simp add: wfTraderMap_def distinct_update)
qed

lemma wfGroups_iff:
  "wfGroups tbc \<longleftrightarrow> distinct (map fst tbc) \<and> (\<forall>cm\<in>snd ` set tbc. wfTraderMap cm)"
  by (auto simp: wfGroups_def list_all_iff)

lemma wfGroups_lookup:
  assumes "wfGroups tbc" and "map_of tbc c = Some cm"
  shows "wfTraderMap cm"
proof -
  have "(c, cm) \<in> set tbc" using assms(2) by (rule map_of_SomeD)
  then have "cm \<in> snd ` set tbc" by force
  then show ?thesis using assms(1) unfolding wfGroups_iff by blast
qed

lemma wfGroups_pushTrade:
  assumes "wfGroups tbc"
  shows "wfGroups (pushTrade a tbc t)"
proof -
  define cm where "cm = (case map_of tbc (conditionId t) of None \<Rightarrow> [] | Some cm \<Rightarrow> cm)"
  define arr where "arr = (case map_of cm a of None \<Rightarrow> [] | Some arr \<Rightarrow> arr)"
  define cm' where "cm' = AList.update a (arr @ [t]) cm"
  have cm: "cm = [] \<or> wfTraderMap cm"
    using wfGroups_lookup [OF assms] by (auto simp: cm_def split: option.splits)
  have new: "wfTraderMap cm'"
    unfolding cm'_def by (rule wfTraderMap_update [OF cm]) simp
  have eq: "pushTrade a tbc t = AList.update (conditionId t) cm' tbc"
    by (simp add: pushTrade_def cm_def arr_def cm'_def Let_def)
  have sub: "set (AList.update (conditionId t) cm' tbc) \<subseteq> insert (conditionId t, cm') (set tbc)"
    by (rule set_update_subset)
  have old: "\<And>k x. (k, x) \<in> set tbc \<Longrightarrow> wfTraderMap x"
    using assms unfolding wfGroups_iff by force
  have "\<forall>x\<in>snd ` set (AList.update (conditionId t) cm' tbc). wfTraderMap x"
  proof
    fix x
    assume "x \<in> snd ` set (AList.update (conditionId t) cm' tbc)"
    then obtain k where "(k, x) \<in> set (AList.update (conditionId t) cm' tbc)" by force
    then have "x = cm' \<or> (k, x) \<in> set tbc" using sub by blast
    then show "wfTraderMap x" using new old by blast
  qed
  moreover have "distinct (map fst (AList.update (conditionId t) cm' tbc))"
    using assms unfolding wfGroups_iff by (simp add: distinct_update)
  ultimately show ?thesis unfolding eq wfGroups_iff by blast
qed

lemma wfGroups_foldl_pushTrade:
  "wfGroups tbc \<Longrightarrow> wfGroups (foldl (pushTrade a) tbc ts)"
  by (induction ts arbitrary: tbc) (auto simp: wfGroups_pushTrade)

lemma wfGroups_foldl_traders:
  "wfGroups tbc \<Longrightarrow>
   wfGroups (foldl (\<lambda>tbc t. foldl (pushTrade (tt_address t)) tbc (tt_trades t)) tbc traderData)"
  by (induction traderData arbitrary: tbc) (auto simp: wfGroups_foldl_pushTrade)

lemma wfGroups_groupsOf: "wfGroups (groupsOf traderData)"
  unfolding groupsOf_def by (rule wfGroups_foldl_traders) (simp add: wfGroups_def)

lemma firstTradeOf_firstOf:
  assumes "snd e \<noteq> []"
  shows "firstTradeOf acc e = Some (acc @ [firstOf e])"
proof -
  have "length (jsSort (\<lambda>a b. timestamp a - timestamp b) (snd e)) = length (snd e)"
    by (rule length_jsSort)
  then obtain t ts where "jsSort (\<lambda>a b. timestamp a - timestamp b) (snd e) = t # ts"
    using assms by (cases "jsSort (\<lambda>a b. timestamp a - timestamp b) (snd e)") auto
  then show ?thesis by (simp add: firstTradeOf_def firstOf_def)
qed

lemma forOf_firstTradeOf:
  assumes "[] \<notin> snd ` set cm"
  shows "forOf firstTradeOf acc cm = Some (acc @ map firstOf cm)"
  using assms
proof (induction cm arbitrary: acc)
  case Nil
  show ?case by simp
next
  case (Cons e cm)
  have "snd e \<noteq> []" using Cons.prems by force
  then have "firstTradeOf acc e = Some (acc @ [firstOf e])" by (rule firstTradeOf_firstOf)
  moreover have "forOf firstTradeOf (acc @ [firstOf e]) cm = Some ((acc @ [firstOf e]) @ map firstOf cm)"
    by (rule Cons.IH) (use Cons.prems in auto)
  ultimately show ?case by simp
qed

lemma matchCondition_matchOne:
  assumes "wfTraderMap (snd e)"
  shows "matchCondition w acc e = Some (acc @ matchOne w e)"
proof (cases "length (snd e) < 2")
  case True
  then show ?thesis by (simp add: matchCondition_def matchOne_def Let_def)
next
  case False
  then obtain k v rest where cm: "snd e = (k, v) # rest" by (cases "snd e") auto
  have ne: "[] \<notin> snd ` set (snd e)" using assms by (simp add: wfTraderMap_def)
  then have v: "v \<noteq> []" using cm by force
  then obtain t vs where vt: "v = t # vs" by (cases v) auto
  have all: "forOf firstTradeOf [] (snd e) = Some (map firstOf (snd e))"
    using forOf_firstTradeOf [OF ne, of "[]"] by simp
  have get: "map_get (snd e) (hd (map fst (snd e))) = Some v"
    by (simp add: cm map_get_def)
  have hdv: "hd (snd (hd (snd e))) = t" by (simp add: cm vt)
  have ft: "(case v of [] \<Rightarrow> None | t # _ \<Rightarrow> Some t) = Some t" by (simp add: vt)
  show ?thesis
  proof (cases "pairLoop w (map firstOf (snd e)) = []")
    case True
    then show ?thesis
      unfolding matchCondition_def matchOne_def Let_def
      by (simp only: False all get ft hdv if_False bind.bind_lunit) simp
  next
    case ne: False
    then show ?thesis
      unfolding matchCondition_def matchOne_def Let_def
      by (simp only: False all get ft hdv if_False bind.bind_lunit) simp
  qed
qed

lemma forOf_matchCondition:
  assumes "list_all wfTraderMap (map snd tbc)"
  shows "forOf (matchCondition w) acc tbc = Some (acc @ concat (map (matchOne w) tbc))"
  using assms
proof (induction tbc arbitrary: acc)
  case Nil
  show ?case by simp
next
  case (Cons e tbc)
  have "matchCondition w acc e = Some (acc @ matchOne w e)"
    by (rule matchCondition_matchOne) (use Cons.prems in simp)
  moreover have "forOf (matchCondition w) (acc @ matchOne w e) tbc =
      Some ((acc @ matchOne w e) @ concat (map (matchOne w) tbc))"
    by (rule Cons.IH) (use Cons.prems in simp)
  ultimately show ?case by simp
qed

lemma findMatchingTrades_pure:
  "findMatchingTrades h traderData = Some (jsSort matchedCmp (matchedOf h traderData))"
proof -
  have "list_all wfTraderMap (map snd (groupsOf traderData))"
    using wfGroups_groupsOf [of traderData] by (simp add: wfGroups_def)
  then have "forOf (matchCondition (h * 3600)) [] (groupsOf traderData) = Some (matchedOf h traderData)"
    using forOf_matchCondition [of "groupsOf traderData" "h * 3600" "[]"]
    by (simp add: matchedOf_def)
  then show ?thesis
    unfolding findMatchingTrades_def groupAll_groupsOf Let_def by simp
qed

section \<open>The matcher, characterised on its input\<close>

lemma bex_set_nth: "(\<exists>x\<in>set xs. P x) \<longleftrightarrow> (\<exists>j<length xs. P (xs ! j))"
  by (metis in_set_conv_nth)

lemma pairLoop_iff:
  "d \<in> set (pairLoop w ts) \<longleftrightarrow>
     (\<exists>i j. i < j \<and> j < length ts \<and> d \<in> set (pairDiff w (ts ! i) (ts ! j)))"
proof (induction ts)
  case Nil
  show ?case by simp
next
  case (Cons t ts)
  have "(\<exists>i j. i < j \<and> j < length (t # ts) \<and> d \<in> set (pairDiff w ((t # ts) ! i) ((t # ts) ! j)))
      \<longleftrightarrow> (\<exists>j<length ts. d \<in> set (pairDiff w t (ts ! j)))
        \<or> (\<exists>i j. i < j \<and> j < length ts \<and> d \<in> set (pairDiff w (ts ! i) (ts ! j)))"
  proof
    assume "\<exists>i j. i < j \<and> j < length (t # ts) \<and> d \<in> set (pairDiff w ((t # ts) ! i) ((t # ts) ! j))"
    then obtain i j where ij: "i < j" "j < length (t # ts)"
      and d: "d \<in> set (pairDiff w ((t # ts) ! i) ((t # ts) ! j))" by blast
    from ij obtain j' where j': "j = Suc j'" by (cases j) auto
    show "(\<exists>j<length ts. d \<in> set (pairDiff w t (ts ! j)))
        \<or> (\<exists>i j. i < j \<and> j < length ts \<and> d \<in> set (pairDiff w (ts ! i) (ts ! j)))"
    proof (cases i)
      case 0
      then show ?thesis using ij d j' by auto
    next
      case (Suc i')
      then have "i' < j'" "j' < length ts" "d \<in> set (pairDiff w (ts ! i') (ts ! j'))"
        using ij d j' by auto
      then show ?thesis by blast
    qed
  next
    assume "(\<exists>j<length ts. d \<in> set (pairDiff w t (ts ! j)))
        \<or> (\<exists>i j. i < j \<and> j < length ts \<and> d \<in> set (pairDiff w (ts ! i) (ts ! j)))"
    then show "\<exists>i j. i < j \<and> j < length (t # ts) \<and> d \<in> set (pairDiff w ((t # ts) ! i) ((t # ts) ! j))"
    proof
      assume "\<exists>j<length ts. d \<in> set (pairDiff w t (ts ! j))"
      then obtain j where "j < length ts" "d \<in> set (pairDiff w t (ts ! j))" by blast
      then have "0 < Suc j \<and> Suc j < length (t # ts) \<and> d \<in> set (pairDiff w ((t # ts) ! 0) ((t # ts) ! Suc j))"
        by simp
      then show ?thesis by blast
    next
      assume "\<exists>i j. i < j \<and> j < length ts \<and> d \<in> set (pairDiff w (ts ! i) (ts ! j))"
      then obtain i j where "i < j" "j < length ts" "d \<in> set (pairDiff w (ts ! i) (ts ! j))" by blast
      then have "Suc i < Suc j \<and> Suc j < length (t # ts)
          \<and> d \<in> set (pairDiff w ((t # ts) ! Suc i) ((t # ts) ! Suc j))"
        by simp
      then show ?thesis by blast
    qed
  qed
  then show ?case using Cons.IH by (simp add: bex_set_nth)
qed

lemma pairDiff_iff:
  "d \<in> set (pairDiff w t1 t2) \<longleftrightarrow>
     \<bar>tf_timestamp t2 - tf_timestamp t1\<bar> \<le> w
     \<and> d = \<lparr>trader1 = tf_address t1, trader2 = tf_address t2,
             diffSeconds = tf_timestamp t2 - tf_timestamp t1,
             leader = (if tf_timestamp t2 - tf_timestamp t1 \<le> 0 then tf_address t2
                       else tf_address t1)\<rparr>"
  by (auto simp: pairDiff_def Let_def)

lemma hd_sort_key_Min:
  fixes f :: "'a \<Rightarrow> int"
  assumes "xs \<noteq> []"
  shows "f (hd (sort_key f xs)) = Min (f ` set xs)"
proof -
  have ne: "sort_key f xs \<noteq> []" using assms by (metis length_sort length_0_conv)
  then obtain y ys where ys: "sort_key f xs = y # ys" by (cases "sort_key f xs") auto
  have srt: "sorted (map f (sort_key f xs))" by (rule sorted_sort_key)
  have st: "set (sort_key f xs) = set xs" by simp
  have "y \<in> set xs" using ys st by (metis list.set_intros(1))
  moreover have "\<forall>z\<in>set xs. f y \<le> f z"
    using srt ys st by (metis (no_types, lifting) list.simps(9) order_refl set_ConsD sorted_simps(2) imageI list.set_map)
  ultimately have "Min (f ` set xs) = f y"
    by (intro Min_eqI) auto
  then show ?thesis by (simp add: ys)
qed

lemma firstOf_address: "tf_address (firstOf e) = fst e"
  by (simp add: firstOf_def Let_def)

lemma firstOf_timestamp:
  assumes "snd e \<noteq> []"
  shows "tf_timestamp (firstOf e) = Min (timestamp ` set (snd e))"
  using hd_sort_key_Min [OF assms, of timestamp]
  by (simp add: firstOf_def Let_def jsSort_key)

lemma groups_entry:
  assumes "(c, cm) \<in> set (groupsOf td)"
  shows "wfTraderMap cm"
    and "map_of (groupsOf td) c = Some cm"
    and "(a, arr) \<in> set cm \<longleftrightarrow> arr = tradesOf td c a \<and> arr \<noteq> []"
proof -
  have wf: "wfGroups (groupsOf td)" by (rule wfGroups_groupsOf)
  then have dist: "distinct (map fst (groupsOf td))" by (simp add: wfGroups_def)
  show look: "map_of (groupsOf td) c = Some cm"
    using assms dist by simp
  show wfc: "wfTraderMap cm" by (rule wfGroups_lookup [OF wf look])
  then have dc: "distinct (map fst cm)" and ne: "[] \<notin> snd ` set cm"
    by (simp_all add: wfTraderMap_def)
  have l2: "lookup2 (groupsOf td) c a = (case map_of cm a of None \<Rightarrow> [] | Some arr \<Rightarrow> arr)"
    by (simp add: lookup2_def look)
  show "(a, arr) \<in> set cm \<longleftrightarrow> arr = tradesOf td c a \<and> arr \<noteq> []"
  proof
    assume in_cm: "(a, arr) \<in> set cm"
    then have "map_of cm a = Some arr" using dc by simp
    then have "tradesOf td c a = arr" using l2 by (simp add: lookup2_groupsOf)
    moreover have "arr \<noteq> []" using in_cm ne by force
    ultimately show "arr = tradesOf td c a \<and> arr \<noteq> []" by simp
  next
    assume a: "arr = tradesOf td c a \<and> arr \<noteq> []"
    then have "(case map_of cm a of None \<Rightarrow> [] | Some arr \<Rightarrow> arr) = arr"
      using l2 by (simp add: lookup2_groupsOf)
    then have "map_of cm a = Some arr" using a by (cases "map_of cm a") auto
    then show "(a, arr) \<in> set cm" by (rule map_of_SomeD)
  qed
qed

lemma groups_participant:
  assumes "participant td c a"
  shows "\<exists>cm. (c, cm) \<in> set (groupsOf td) \<and> (a, tradesOf td c a) \<in> set cm"
proof -
  have ne: "lookup2 (groupsOf td) c a \<noteq> []"
    using assms by (simp add: participant_def lookup2_groupsOf)
  then obtain cm where look: "map_of (groupsOf td) c = Some cm"
    by (cases "map_of (groupsOf td) c") (auto simp: lookup2_def)
  then have "(c, cm) \<in> set (groupsOf td)" by (rule map_of_SomeD)
  moreover have "(a, tradesOf td c a) \<in> set cm"
    using groups_entry(3) [OF calculation, of a "tradesOf td c a"] assms
    by (simp add: participant_def)
  ultimately show ?thesis by blast
qed

lemma groups_nth:
  assumes "(c, cm) \<in> set (groupsOf td)" and "i < length cm"
  shows "participant td c (fst (cm ! i))"
    and "tf_address (firstOf (cm ! i)) = fst (cm ! i)"
    and "tf_timestamp (firstOf (cm ! i)) = firstTimestamp td c (fst (cm ! i))"
proof -
  have "(fst (cm ! i), snd (cm ! i)) \<in> set cm" using assms(2) by simp
  then have arr: "snd (cm ! i) = tradesOf td c (fst (cm ! i))" and ne: "snd (cm ! i) \<noteq> []"
    using groups_entry(3) [OF assms(1)] by blast+
  show "participant td c (fst (cm ! i))" using arr ne by (simp add: participant_def)
  show "tf_address (firstOf (cm ! i)) = fst (cm ! i)" by (rule firstOf_address)
  show "tf_timestamp (firstOf (cm ! i)) = firstTimestamp td c (fst (cm ! i))"
    using firstOf_timestamp [OF ne] arr by (simp add: firstTimestamp_def)
qed

lemma gap_iff:
  assumes "(c, cm) \<in> set (groupsOf td)"
  shows "d \<in> set (pairLoop (h * 3600) (map firstOf cm)) \<longleftrightarrow>
     (\<exists>i j. i < j \<and> j < length cm
        \<and> withinWindow h td c (fst (cm ! i)) (fst (cm ! j))
        \<and> d = gapOf td c (fst (cm ! i)) (fst (cm ! j)))"
proof -
  have pd: "d \<in> set (pairDiff (h * 3600) (map firstOf cm ! i) (map firstOf cm ! j)) \<longleftrightarrow>
        withinWindow h td c (fst (cm ! i)) (fst (cm ! j))
        \<and> d = gapOf td c (fst (cm ! i)) (fst (cm ! j))"
    if ij: "i < j" "j < length cm" for i j
  proof -
    have i: "i < length cm" using ij by simp
    have e1: "map firstOf cm ! i = firstOf (cm ! i)" using i by simp
    have e2: "map firstOf cm ! j = firstOf (cm ! j)" using ij by simp
    show ?thesis
      unfolding e1 e2 pairDiff_iff withinWindow_def gapOf_def Let_def
        groups_nth(2,3) [OF assms i] groups_nth(2,3) [OF assms ij(2)]
      by (rule refl)
  qed
  show ?thesis
  proof
    assume "d \<in> set (pairLoop (h * 3600) (map firstOf cm))"
    then obtain i j where ij: "i < j" "j < length cm"
      and d: "d \<in> set (pairDiff (h * 3600) (map firstOf cm ! i) (map firstOf cm ! j))"
      unfolding pairLoop_iff by auto
    show "\<exists>i j. i < j \<and> j < length cm
        \<and> withinWindow h td c (fst (cm ! i)) (fst (cm ! j))
        \<and> d = gapOf td c (fst (cm ! i)) (fst (cm ! j))"
      using ij d pd [OF ij] by blast
  next
    assume "\<exists>i j. i < j \<and> j < length cm
        \<and> withinWindow h td c (fst (cm ! i)) (fst (cm ! j))
        \<and> d = gapOf td c (fst (cm ! i)) (fst (cm ! j))"
    then obtain i j where ij: "i < j" "j < length cm"
      and w: "withinWindow h td c (fst (cm ! i)) (fst (cm ! j))"
      and d: "d = gapOf td c (fst (cm ! i)) (fst (cm ! j))" by blast
    have "d \<in> set (pairDiff (h * 3600) (map firstOf cm ! i) (map firstOf cm ! j))"
      using pd [OF ij] w d by blast
    moreover have "j < length (map firstOf cm)" using ij by simp
    ultimately show "d \<in> set (pairLoop (h * 3600) (map firstOf cm))"
      unfolding pairLoop_iff using ij(1) by blast
  qed
qed

lemma pairLoop_short: "length ts < 2 \<Longrightarrow> pairLoop w ts = []"
  by (cases ts) (auto simp: less_Suc_eq)

lemma matchOne_cases:
  "matchOne w (c, cm) =
     (if pairLoop w (map firstOf cm) = [] then []
      else [\<lparr>mt_conditionId = c, mt_market = market (hd (snd (hd cm))),
             mt_outcome = outcome (hd (snd (hd cm))),
             traderTrades = map firstOf cm, timeDiffs = pairLoop w (map firstOf cm)\<rparr>])"
proof (cases "length cm < 2")
  case True
  then have "pairLoop w (map firstOf cm) = []" by (simp add: pairLoop_short)
  then show ?thesis using True by (simp add: matchOne_def Let_def)
next
  case False
  then show ?thesis by (simp add: matchOne_def Let_def)
qed

lemma matchedOf_entry:
  assumes "m \<in> set (matchedOf h td)"
  shows "\<exists>cm. (mt_conditionId m, cm) \<in> set (groupsOf td)
     \<and> traderTrades m = map firstOf cm
     \<and> timeDiffs m = pairLoop (h * 3600) (map firstOf cm)
     \<and> timeDiffs m \<noteq> []"
proof -
  from assms obtain e where e: "e \<in> set (groupsOf td)" and m: "m \<in> set (matchOne (h * 3600) e)"
    by (auto simp: matchedOf_def)
  obtain c cm where ec: "e = (c, cm)" by (cases e) auto
  have ne: "pairLoop (h * 3600) (map firstOf cm) \<noteq> []"
    using m unfolding ec matchOne_cases by (auto split: if_splits)
  then have "m = \<lparr>mt_conditionId = c, mt_market = market (hd (snd (hd cm))),
             mt_outcome = outcome (hd (snd (hd cm))),
             traderTrades = map firstOf cm, timeDiffs = pairLoop (h * 3600) (map firstOf cm)\<rparr>"
    using m unfolding ec matchOne_cases by simp
  then show ?thesis using e ne unfolding ec by auto
qed

lemma matchedOf_intro:
  assumes "(c, cm) \<in> set (groupsOf td)" and "pairLoop (h * 3600) (map firstOf cm) \<noteq> []"
  shows "\<exists>m\<in>set (matchedOf h td). mt_conditionId m = c
     \<and> traderTrades m = map firstOf cm
     \<and> timeDiffs m = pairLoop (h * 3600) (map firstOf cm)"
proof -
  define m where "m = \<lparr>mt_conditionId = c, mt_market = market (hd (snd (hd cm))),
             mt_outcome = outcome (hd (snd (hd cm))),
             traderTrades = map firstOf cm, timeDiffs = pairLoop (h * 3600) (map firstOf cm)\<rparr>"
  have "m \<in> set (matchOne (h * 3600) (c, cm))"
    using assms(2) unfolding matchOne_cases m_def by simp
  then have "m \<in> set (matchedOf h td)"
    using assms(1) unfolding matchedOf_def by auto
  moreover have "mt_conditionId m = c" "traderTrades m = map firstOf cm"
    "timeDiffs m = pairLoop (h * 3600) (map firstOf cm)"
    by (simp_all add: m_def)
  ultimately show ?thesis by blast
qed

lemma withinWindow_sym: "withinWindow h td c a b = withinWindow h td c b a"
  by (simp add: withinWindow_def abs_minus_commute)

lemma gapOf_traders: "trader1 (gapOf td c a b) = a" "trader2 (gapOf td c a b) = b"
  by (simp_all add: gapOf_def Let_def)

lemma gap_of_entry:
  assumes "m \<in> set (matchedOf h td)" and "d \<in> set (timeDiffs m)"
  shows "\<exists>cm i j. (mt_conditionId m, cm) \<in> set (groupsOf td) \<and> traderTrades m = map firstOf cm
     \<and> i < j \<and> j < length cm
     \<and> trader1 d = fst (cm ! i) \<and> trader2 d = fst (cm ! j)
     \<and> withinWindow h td (mt_conditionId m) (trader1 d) (trader2 d)
     \<and> d = gapOf td (mt_conditionId m) (trader1 d) (trader2 d)"
proof -
  obtain cm where cm: "(mt_conditionId m, cm) \<in> set (groupsOf td)"
    and tt: "traderTrades m = map firstOf cm"
    and td: "timeDiffs m = pairLoop (h * 3600) (map firstOf cm)"
    using matchedOf_entry [OF assms(1)] by blast
  have "d \<in> set (pairLoop (h * 3600) (map firstOf cm))" using assms(2) td by simp
  then obtain i j where ij: "i < j" "j < length cm"
    and w: "withinWindow h td (mt_conditionId m) (fst (cm ! i)) (fst (cm ! j))"
    and d: "d = gapOf td (mt_conditionId m) (fst (cm ! i)) (fst (cm ! j))"
    unfolding gap_iff [OF cm] by blast
  have t: "trader1 d = fst (cm ! i)" "trader2 d = fst (cm ! j)"
    by (simp_all add: d gapOf_traders)
  show ?thesis using cm tt ij w d t by metis
qed

lemma pair_recorded:
  assumes a: "participant td c a" and b: "participant td c b" and ab: "a \<noteq> b"
    and w: "withinWindow h td c a b"
  shows "\<exists>m\<in>set (matchedOf h td). mt_conditionId m = c
     \<and> (\<exists>d\<in>set (timeDiffs m). trader1 d = a \<and> trader2 d = b \<or> trader1 d = b \<and> trader2 d = a)"
proof -
  obtain cm where cm: "(c, cm) \<in> set (groupsOf td)" and ina: "(a, tradesOf td c a) \<in> set cm"
    using groups_participant [OF a] by blast
  obtain cm' where cm': "(c, cm') \<in> set (groupsOf td)" and inb': "(b, tradesOf td c b) \<in> set cm'"
    using groups_participant [OF b] by blast
  have "cm' = cm" using groups_entry(2) [OF cm] groups_entry(2) [OF cm'] by simp
  then have inb: "(b, tradesOf td c b) \<in> set cm" using inb' by simp
  obtain i where i: "i < length cm" "cm ! i = (a, tradesOf td c a)"
    using ina by (auto simp: in_set_conv_nth)
  obtain j where j: "j < length cm" "cm ! j = (b, tradesOf td c b)"
    using inb by (auto simp: in_set_conv_nth)
  have ij: "i \<noteq> j" using i j ab by auto
  have "\<exists>d. d \<in> set (pairLoop (h * 3600) (map firstOf cm))
      \<and> (trader1 d = a \<and> trader2 d = b \<or> trader1 d = b \<and> trader2 d = a)"
  proof (cases "i < j")
    case True
    have "gapOf td c a b \<in> set (pairLoop (h * 3600) (map firstOf cm))"
      unfolding gap_iff [OF cm] using True i j w by force
    then show ?thesis using gapOf_traders by blast
  next
    case False
    then have ji: "j < i" using ij by simp
    have "gapOf td c b a \<in> set (pairLoop (h * 3600) (map firstOf cm))"
      unfolding gap_iff [OF cm] using ji i j w withinWindow_sym [of h td c a b] by force
    then show ?thesis using gapOf_traders by blast
  qed
  then obtain d where d: "d \<in> set (pairLoop (h * 3600) (map firstOf cm))"
    and dt: "trader1 d = a \<and> trader2 d = b \<or> trader1 d = b \<and> trader2 d = a" by blast
  then have "pairLoop (h * 3600) (map firstOf cm) \<noteq> []" by auto
  then obtain m where m: "m \<in> set (matchedOf h td)" "mt_conditionId m = c"
    "timeDiffs m = pairLoop (h * 3600) (map firstOf cm)"
    using matchedOf_intro [OF cm] by blast
  have "d \<in> set (timeDiffs m)" using d m(3) by simp
  then show ?thesis using m(1,2) dt by blast
qed

lemma recorded_within:
  assumes "m \<in> set (matchedOf h td)" and "d \<in> set (timeDiffs m)"
    and "trader1 d = a \<and> trader2 d = b \<or> trader1 d = b \<and> trader2 d = a"
  shows "withinWindow h td (mt_conditionId m) a b"
  using gap_of_entry [OF assms(1,2)] assms(3) withinWindow_sym by metis

lemma market_matched:
  assumes "m \<in> set (matchedOf h td)"
  shows "\<exists>a b. participant td (mt_conditionId m) a \<and> participant td (mt_conditionId m) b
     \<and> a \<noteq> b \<and> withinWindow h td (mt_conditionId m) a b"
proof -
  obtain d where d: "d \<in> set (timeDiffs m)"
    using matchedOf_entry [OF assms] by (cases "timeDiffs m") auto
  obtain cm i j where cm: "(mt_conditionId m, cm) \<in> set (groupsOf td)"
    and ij: "i < j" "j < length cm"
    and t: "trader1 d = fst (cm ! i)" "trader2 d = fst (cm ! j)"
    and w: "withinWindow h td (mt_conditionId m) (trader1 d) (trader2 d)"
    using gap_of_entry [OF assms d] by blast
  have i: "i < length cm" using ij by simp
  have "distinct (map fst cm)" using groups_entry(1) [OF cm] by (simp add: wfTraderMap_def)
  moreover have "i < length (map fst cm)" "j < length (map fst cm)" "i \<noteq> j"
    using ij i by simp_all
  ultimately have "map fst cm ! i \<noteq> map fst cm ! j"
    using nth_eq_iff_index_eq by blast
  then have "trader1 d \<noteq> trader2 d" using t ij i by simp
  moreover have "participant td (mt_conditionId m) (trader1 d)"
    "participant td (mt_conditionId m) (trader2 d)"
    using groups_nth(1) [OF cm i] groups_nth(1) [OF cm ij(2)] t by simp_all
  ultimately show ?thesis using w by blast
qed

text \<open>Unfolding rules that evaluate the matcher and the notions above on a concrete input.\<close>

lemmas matcher_eval =
  findMatchingTrades_def groupAll_def groupTrader_def groupTrade_def map_has_def map_get_def
  map_set_def mkTrade_def matchCondition_def firstTradeOf_def jsSort_def pairDiff_def Let_def
  matchedCmp_def

lemmas spec_eval = participant_def tradesOf_def firstTimestamp_def withinWindow_def mkTrade_def

section \<open>The order of the matched markets\<close>

lemma mathMin_Min: "xs \<noteq> [] \<Longrightarrow> mathMin xs = Some (Min (set xs))"
proof (induction xs)
  case Nil
  then show ?case by simp
next
  case (Cons x xs)
  show ?case
  proof (cases "xs = []")
    case True
    then show ?thesis by simp
  next
    case False
    then have "mathMin xs = Some (Min (set xs))" by (rule Cons.IH)
    then show ?thesis using False by (simp add: min.commute)
  qed
qed

lemma mathMin_None: "mathMin xs = None \<longleftrightarrow> xs = []"
  by (cases xs) (auto split: option.splits)

lemma matchedCmp_total: "matchedCmp a b \<le> 0 \<or> matchedCmp b a \<le> 0"
  by (auto simp: matchedCmp_def Let_def split: option.splits)

lemma matchedCmp_trans:
  "matchedCmp a b \<le> 0 \<Longrightarrow> matchedCmp b c \<le> 0 \<Longrightarrow> matchedCmp a c \<le> 0"
  by (auto simp: matchedCmp_def Let_def split: option.splits)

lemma matchedCmp_earliest:
  assumes "traderTrades a \<noteq> []" and "traderTrades b \<noteq> []"
  shows "matchedCmp a b \<le> 0 \<longleftrightarrow> earliest b \<le> earliest a"
  using assms by (simp add: matchedCmp_def Let_def mathMin_Min earliest_def)

lemma matchedOf_traderTrades:
  assumes "m \<in> set (matchedOf h td)"
  shows "traderTrades m \<noteq> []"
proof -
  obtain cm where cm: "traderTrades m = map firstOf cm"
    and d: "timeDiffs m = pairLoop (h * 3600) (map firstOf cm)" "timeDiffs m \<noteq> []"
    using matchedOf_entry [OF assms] by blast
  then have "map firstOf cm \<noteq> []" by auto
  then show ?thesis using cm by simp
qed

lemma sorted_wrt_adjacent:
  assumes "sorted_wrt P xs" and "Suc i < length xs"
  shows "P (xs ! i) (xs ! Suc i)"
  using assms by (simp add: sorted_wrt_iff_nth_less)

lemma matched_sorted: "sorted_wrt (\<lambda>x y. earliest y \<le> earliest x) (jsSort matchedCmp (matchedOf h td))"
proof -
  have "sorted_wrt (\<lambda>a b. matchedCmp a b \<le> 0) (jsSort matchedCmp (matchedOf h td))"
    by (rule sorted_wrt_jsSort [OF matchedCmp_total matchedCmp_trans])
  moreover have "\<And>x y. x \<in> set (jsSort matchedCmp (matchedOf h td)) \<Longrightarrow>
      y \<in> set (jsSort matchedCmp (matchedOf h td)) \<Longrightarrow> matchedCmp x y \<le> 0 \<Longrightarrow>
      earliest y \<le> earliest x"
    using matchedCmp_earliest matchedOf_traderTrades by (simp add: set_jsSort)
  ultimately show ?thesis by (rule sorted_wrt_mono_rel [rotated])
qed

lemma earliest_input:
  assumes "m \<in> set (matchedOf h td)"
  shows "earliest m = Min (firstTimestamp td (mt_conditionId m) ` {a. participant td (mt_conditionId m) a})"
proof -
  define c where "c = mt_conditionId m"
  obtain cm where cm: "(c, cm) \<in> set (groupsOf td)" and tt: "traderTrades m = map firstOf cm"
    using matchedOf_entry [OF assms] unfolding c_def by blast
  have keys: "fst ` set cm = {a. participant td c a}"
  proof (intro set_eqI iffI)
    fix a assume "a \<in> fst ` set cm"
    then obtain arr where "(a, arr) \<in> set cm" by force
    then have "arr = tradesOf td c a \<and> arr \<noteq> []"
      using groups_entry(3) [OF cm] by blast
    then show "a \<in> {a. participant td c a}"
      by (auto simp: participant_def)
  next
    fix a assume "a \<in> {a. participant td c a}"
    then have "(a, tradesOf td c a) \<in> set cm"
      using groups_entry(3) [OF cm, of a "tradesOf td c a"] by (simp add: participant_def)
    then show "a \<in> fst ` set cm" by force
  qed
  have "tf_timestamp (firstOf e) = firstTimestamp td c (fst e)" if e: "e \<in> set cm" for e
  proof -
    obtain i where "i < length cm" "cm ! i = e" using e by (auto simp: in_set_conv_nth)
    then show ?thesis using groups_nth(3) [OF cm] by blast
  qed
  then have "set (map tf_timestamp (map firstOf cm)) = firstTimestamp td c ` fst ` set cm"
    by (force simp: image_iff)
  then have "set (map tf_timestamp (map firstOf cm)) = firstTimestamp td c ` {a. participant td c a}"
    by (simp only: keys)
  then show ?thesis
    unfolding earliest_def tt c_def [symmetric] by (rule arg_cong)
qed

section \<open>The order of the participants\<close>

lemma keys2_pushTrade:
  "keys2 (pushTrade a tbc t) c =
     (if c = conditionId t then appendNew (keys2 tbc c) a else keys2 tbc c)"
  by (auto simp: keys2_def pushTrade_def Let_def update_conv' update_keys appendNew_def
      split: option.splits)

lemma keys2_foldl_pushTrade:
  "keys2 (foldl (pushTrade a) tbc ts) c =
     foldl appendNew (keys2 tbc c) (map (\<lambda>t. a) (filter (\<lambda>t. conditionId t = c) ts))"
  by (induction ts arbitrary: tbc) (auto simp: keys2_pushTrade)

lemma keys2_foldl_traders:
  "keys2 (foldl (\<lambda>tbc t. foldl (pushTrade (tt_address t)) tbc (tt_trades t)) tbc traderData) c =
     foldl appendNew (keys2 tbc c)
       (concat (map (\<lambda>x. map (\<lambda>t. tt_address x) (filter (\<lambda>t. conditionId t = c) (tt_trades x)))
                  traderData))"
  by (induction traderData arbitrary: tbc) (auto simp: keys2_foldl_pushTrade)

lemma keys2_groupsOf: "keys2 (groupsOf td) c = seenOrder td c"
proof -
  have "keys2 [] c = []" by (simp add: keys2_def)
  then show ?thesis unfolding groupsOf_def seenOrder_def keys2_foldl_traders by simp
qed

lemma groups_order:
  assumes "(c, cm) \<in> set (groupsOf td)"
  shows "map fst cm = seenOrder td c"
  using keys2_groupsOf [of td c] groups_entry(2) [OF assms] by (simp add: keys2_def)

section \<open>The window filter\<close>

text \<open>
  C1. \<^verbatim>\<open>findMatchingTrades\<close> returns, and in its result: two distinct participants of
  a market have a gap record (in either order of the pair) if and only if the absolute
  difference of their first-trade timestamps is at most \<open>TIME_WINDOW_HOURS * 3600\<close>
  seconds; and a market is in the output if and only if some pair of its distinct
  participants is within that window. Participants and first-trade timestamps are read
  off the input (\<open>participant\<close>, \<open>firstTimestamp\<close>).
\<close>

theorem window_filter:
  "\<exists>ms. findMatchingTrades h td = Some ms
     \<and> (participant td c a \<and> participant td c b \<and> a \<noteq> b \<longrightarrow>
          ((\<exists>m\<in>set ms. mt_conditionId m = c
              \<and> (\<exists>d\<in>set (timeDiffs m).
                    trader1 d = a \<and> trader2 d = b \<or> trader1 d = b \<and> trader2 d = a))
           \<longleftrightarrow> withinWindow h td c a b))
     \<and> ((\<exists>m\<in>set ms. mt_conditionId m = c)
          \<longleftrightarrow> (\<exists>a b. participant td c a \<and> participant td c b \<and> a \<noteq> b
                \<and> withinWindow h td c a b))"
proof -
  define ms where "ms = jsSort matchedCmp (matchedOf h td)"
  have res: "findMatchingTrades h td = Some ms"
    by (simp add: ms_def findMatchingTrades_pure)
  have st: "set ms = set (matchedOf h td)" by (simp add: ms_def set_jsSort)
  have pair: "(\<exists>m\<in>set ms. mt_conditionId m = c
              \<and> (\<exists>d\<in>set (timeDiffs m).
                    trader1 d = a \<and> trader2 d = b \<or> trader1 d = b \<and> trader2 d = a))
           \<longleftrightarrow> withinWindow h td c a b"
    if "participant td c a" "participant td c b" "a \<noteq> b"
  proof
    assume "\<exists>m\<in>set ms. mt_conditionId m = c
              \<and> (\<exists>d\<in>set (timeDiffs m).
                    trader1 d = a \<and> trader2 d = b \<or> trader1 d = b \<and> trader2 d = a)"
    then obtain m d where "m \<in> set (matchedOf h td)" "mt_conditionId m = c" "d \<in> set (timeDiffs m)"
      "trader1 d = a \<and> trader2 d = b \<or> trader1 d = b \<and> trader2 d = a"
      unfolding st by blast
    then show "withinWindow h td c a b" using recorded_within by blast
  next
    assume "withinWindow h td c a b"
    then show "\<exists>m\<in>set ms. mt_conditionId m = c
              \<and> (\<exists>d\<in>set (timeDiffs m).
                    trader1 d = a \<and> trader2 d = b \<or> trader1 d = b \<and> trader2 d = a)"
      unfolding st by (rule pair_recorded [OF that])
  qed
  have mk: "(\<exists>m\<in>set ms. mt_conditionId m = c)
          \<longleftrightarrow> (\<exists>a b. participant td c a \<and> participant td c b \<and> a \<noteq> b
                \<and> withinWindow h td c a b)"
  proof
    assume "\<exists>m\<in>set ms. mt_conditionId m = c"
    then obtain m where "m \<in> set (matchedOf h td)" "mt_conditionId m = c"
      unfolding st by blast
    then show "\<exists>a b. participant td c a \<and> participant td c b \<and> a \<noteq> b
                \<and> withinWindow h td c a b"
      using market_matched [of m h td] by simp
  next
    assume "\<exists>a b. participant td c a \<and> participant td c b \<and> a \<noteq> b
                \<and> withinWindow h td c a b"
    then obtain a b where "participant td c a" "participant td c b" "a \<noteq> b"
      "withinWindow h td c a b" by blast
    then obtain m where "m \<in> set (matchedOf h td)" "mt_conditionId m = c"
      using pair_recorded [of td c a b h] by blast
    then show "\<exists>m\<in>set ms. mt_conditionId m = c" unfolding st by blast
  qed
  show ?thesis using res pair mk by blast
qed

text \<open>
  The scenario of the claim: first trades at 100 and 4000 with a window of one hour. The
  pair is outside the window, and market \<open>M1\<close> is not in the output.
\<close>

theorem window_filter_witness:
  "findMatchingTrades 1 scenarioFar = Some []
   \<and> participant scenarioFar ''M1'' ''0xaaa'' \<and> participant scenarioFar ''M1'' ''0xbbb''
   \<and> \<not> withinWindow 1 scenarioFar ''M1'' ''0xaaa'' ''0xbbb''
   \<and> \<not> (\<exists>m\<in>set (the (findMatchingTrades 1 scenarioFar)). mt_conditionId m = ''M1'')"
proof -
  have e1: "findMatchingTrades 1 scenarioFar = Some []"
    by (simp add: scenarioFar_def matcher_eval)
  have e2: "participant scenarioFar ''M1'' ''0xaaa''" "participant scenarioFar ''M1'' ''0xbbb''"
    "\<not> withinWindow 1 scenarioFar ''M1'' ''0xaaa'' ''0xbbb''"
    by (simp_all add: scenarioFar_def spec_eval)
  show ?thesis
    using window_filter [of 1 scenarioFar "''M1''" "''0xaaa''" "''0xbbb''"] e2
    by (simp add: e1)
qed

section \<open>The order of the result\<close>

text \<open>
  C7. The list \<^verbatim>\<open>findMatchingTrades\<close> returns is ordered by each market's earliest
  participant first-trade timestamp, most recent first: the earliest timestamp of an
  element is at least that of every later element, so in particular of the next one.
  Every element lists at least one participant, and its earliest timestamp is the least
  first-trade timestamp among the market's participants in the input.
\<close>

theorem matched_order:
  "\<exists>ms. findMatchingTrades h td = Some ms
     \<and> sorted_wrt (\<lambda>x y. earliest y \<le> earliest x) ms
     \<and> (Suc i < length ms \<longrightarrow> earliest (ms ! Suc i) \<le> earliest (ms ! i))
     \<and> (m \<in> set ms \<longrightarrow> traderTrades m \<noteq> []
          \<and> earliest m =
              Min (firstTimestamp td (mt_conditionId m) ` {a. participant td (mt_conditionId m) a}))"
proof -
  define ms where "ms = jsSort matchedCmp (matchedOf h td)"
  have res: "findMatchingTrades h td = Some ms"
    by (simp add: ms_def findMatchingTrades_pure)
  have st: "set ms = set (matchedOf h td)" by (simp add: ms_def set_jsSort)
  have srt: "sorted_wrt (\<lambda>x y. earliest y \<le> earliest x) ms"
    unfolding ms_def by (rule matched_sorted)
  have adj: "earliest (ms ! Suc i) \<le> earliest (ms ! i)" if "Suc i < length ms"
    using sorted_wrt_adjacent [OF srt that] .
  have el: "traderTrades m \<noteq> [] \<and> earliest m =
      Min (firstTimestamp td (mt_conditionId m) ` {a. participant td (mt_conditionId m) a})"
    if "m \<in> set ms"
    using that matchedOf_traderTrades earliest_input unfolding st by blast
  show ?thesis using res srt adj el by blast
qed

text \<open>Two markets, the second opened later: it comes first in the output.\<close>

theorem matched_order_witness:
  "map mt_conditionId (the (findMatchingTrades 1 scenarioTwoMarkets)) = [''M2'', ''M1'']
   \<and> map earliest (the (findMatchingTrades 1 scenarioTwoMarkets)) = [500, 100]
   \<and> earliest (the (findMatchingTrades 1 scenarioTwoMarkets) ! Suc 0)
       \<le> earliest (the (findMatchingTrades 1 scenarioTwoMarkets) ! 0)"
proof -
  have e: "map (\<lambda>m. (mt_conditionId m, earliest m)) (the (findMatchingTrades 1 scenarioTwoMarkets))
      = [(''M2'', 500), (''M1'', 100)]"
    by (simp add: scenarioTwoMarkets_def matcher_eval earliest_def)
  have l: "Suc 0 < length (the (findMatchingTrades 1 scenarioTwoMarkets))"
    using arg_cong [OF e, of length] by simp
  have m1: "map mt_conditionId (the (findMatchingTrades 1 scenarioTwoMarkets)) = [''M2'', ''M1'']"
    using arg_cong [OF e, of "map fst"] by (simp add: comp_def)
  have m2: "map earliest (the (findMatchingTrades 1 scenarioTwoMarkets)) = [500, 100]"
    using arg_cong [OF e, of "map snd"] by (simp add: comp_def)
  obtain ms where ms: "findMatchingTrades 1 scenarioTwoMarkets = Some ms"
    and adj: "Suc 0 < length ms \<longrightarrow> earliest (ms ! Suc 0) \<le> earliest (ms ! 0)"
    using matched_order [of 1 scenarioTwoMarkets 0] by blast
  show ?thesis using m1 m2 l adj by (simp add: ms)
qed

section \<open>Empty results\<close>

text \<open>
  C8. The matcher returns a list for every input: none of its property reads meets
  \<^verbatim>\<open>undefined\<close>, so it never throws. When no two distinct participants of any market
  are within the window, the list is empty. The ranker has no failing step; when no
  trader passes the threshold it returns the empty list.
\<close>

theorem never_fails:
  "(\<exists>ms. findMatchingTrades h td = Some ms)
   \<and> ((\<forall>c a b. participant td c a \<and> participant td c b \<and> a \<noteq> b
          \<longrightarrow> \<not> withinWindow h td c a b)
        \<longrightarrow> findMatchingTrades h td = Some [])
   \<and> ((\<forall>t\<in>snd ` set stats. \<not> qualifies n t) \<longrightarrow> rankTraders n stats = [])"
proof -
  have a: "\<exists>ms. findMatchingTrades h td = Some ms"
    by (simp add: findMatchingTrades_pure)
  have b: "findMatchingTrades h td = Some []"
    if none: "\<forall>c a b. participant td c a \<and> participant td c b \<and> a \<noteq> b
          \<longrightarrow> \<not> withinWindow h td c a b"
  proof -
    have "matchedOf h td = []"
    proof (cases "matchedOf h td")
      case Nil
      then show ?thesis .
    next
      case (Cons m rest)
      then have "m \<in> set (matchedOf h td)" by simp
      then show ?thesis using market_matched [of m h td] none by blast
    qed
    then show ?thesis by (simp add: findMatchingTrades_pure jsSort_Nil)
  qed
  have c: "rankTraders n stats = []" if "\<forall>t\<in>snd ` set stats. \<not> qualifies n t"
  proof -
    have "filter (qualifies n) (map snd stats) = []"
      using that by (simp add: filter_empty_conv)
    then show ?thesis by (simp add: rankTraders_eq jsSort_Nil)
  qed
  show ?thesis using a b c by blast
qed

text \<open>
  The pair outside the window gives the empty list of markets, and a minimum of 10 first
  places leaves no trader of the example.
\<close>

theorem never_fails_witness:
  "findMatchingTrades 1 scenarioFar = Some [] \<and> rankTraders 10 rankExample = []"
proof -
  have pa: "participant scenarioFar c a \<longleftrightarrow> c = ''M1'' \<and> (a = ''0xaaa'' \<or> a = ''0xbbb'')"
    for c a
    by (simp add: scenarioFar_def participant_def tradesOf_def mkTrade_def)
  have w: "\<not> withinWindow 1 scenarioFar ''M1'' ''0xaaa'' ''0xbbb''"
    "\<not> withinWindow 1 scenarioFar ''M1'' ''0xbbb'' ''0xaaa''"
    by (simp_all add: scenarioFar_def spec_eval)
  have p: "\<forall>c a b. participant scenarioFar c a \<and> participant scenarioFar c b \<and> a \<noteq> b
          \<longrightarrow> \<not> withinWindow 1 scenarioFar c a b"
    unfolding pa using w by blast
  have q: "\<forall>t\<in>snd ` set rankExample. \<not> qualifies 10 t"
    by (simp add: rankExample_def mkStats_def qualifies_def)
  show ?thesis using never_fails [of 1 scenarioFar rankExample 10] p q by blast
qed

section \<open>The leader of a pair\<close>

text \<open>
  C2, as the code has it. In every gap record the two traders are distinct participants
  of the market, \<open>diffSeconds\<close> is the first-trade timestamp of \<open>trader2\<close> minus that of
  \<open>trader1\<close>, and the leader is the trader with the strictly earlier first-trade
  timestamp. When the two timestamps are equal the leader is \<open>trader2\<close>, the trader of
  the pair that the grouping pass met later in that market: \<open>trader1\<close> stands before
  \<open>trader2\<close> in \<open>seenOrder\<close>, which is also the order of the market's participant list.
  The addresses themselves are never compared.
\<close>

theorem leader_by_timestamp_then_position:
  "\<exists>ms. findMatchingTrades h td = Some ms
     \<and> (m \<in> set ms \<and> d \<in> set (timeDiffs m) \<longrightarrow>
          participant td (mt_conditionId m) (trader1 d)
          \<and> participant td (mt_conditionId m) (trader2 d)
          \<and> trader1 d \<noteq> trader2 d
          \<and> diffSeconds d = firstTimestamp td (mt_conditionId m) (trader2 d)
                             - firstTimestamp td (mt_conditionId m) (trader1 d)
          \<and> (firstTimestamp td (mt_conditionId m) (trader1 d)
               < firstTimestamp td (mt_conditionId m) (trader2 d) \<longrightarrow> leader d = trader1 d)
          \<and> (firstTimestamp td (mt_conditionId m) (trader2 d)
               < firstTimestamp td (mt_conditionId m) (trader1 d) \<longrightarrow> leader d = trader2 d)
          \<and> (firstTimestamp td (mt_conditionId m) (trader1 d)
               = firstTimestamp td (mt_conditionId m) (trader2 d) \<longrightarrow> leader d = trader2 d)
          \<and> map tf_address (traderTrades m) = seenOrder td (mt_conditionId m)
          \<and> (\<exists>i j. i < j \<and> j < length (seenOrder td (mt_conditionId m))
                \<and> seenOrder td (mt_conditionId m) ! i = trader1 d
                \<and> seenOrder td (mt_conditionId m) ! j = trader2 d))"
proof -
  define ms where "ms = jsSort matchedCmp (matchedOf h td)"
  have res: "findMatchingTrades h td = Some ms"
    by (simp add: ms_def findMatchingTrades_pure)
  have st: "set ms = set (matchedOf h td)" by (simp add: ms_def set_jsSort)
  have main: "participant td (mt_conditionId m) (trader1 d)
          \<and> participant td (mt_conditionId m) (trader2 d)
          \<and> trader1 d \<noteq> trader2 d
          \<and> diffSeconds d = firstTimestamp td (mt_conditionId m) (trader2 d)
                             - firstTimestamp td (mt_conditionId m) (trader1 d)
          \<and> (firstTimestamp td (mt_conditionId m) (trader1 d)
               < firstTimestamp td (mt_conditionId m) (trader2 d) \<longrightarrow> leader d = trader1 d)
          \<and> (firstTimestamp td (mt_conditionId m) (trader2 d)
               < firstTimestamp td (mt_conditionId m) (trader1 d) \<longrightarrow> leader d = trader2 d)
          \<and> (firstTimestamp td (mt_conditionId m) (trader1 d)
               = firstTimestamp td (mt_conditionId m) (trader2 d) \<longrightarrow> leader d = trader2 d)
          \<and> map tf_address (traderTrades m) = seenOrder td (mt_conditionId m)
          \<and> (\<exists>i j. i < j \<and> j < length (seenOrder td (mt_conditionId m))
                \<and> seenOrder td (mt_conditionId m) ! i = trader1 d
                \<and> seenOrder td (mt_conditionId m) ! j = trader2 d)"
    if m: "m \<in> set ms" and d: "d \<in> set (timeDiffs m)"
  proof -
    define c where "c = mt_conditionId m"
    have m': "m \<in> set (matchedOf h td)" using m st by simp
    obtain cm i j where cm: "(c, cm) \<in> set (groupsOf td)"
      and tt: "traderTrades m = map firstOf cm"
      and ij: "i < j" "j < length cm"
      and t: "trader1 d = fst (cm ! i)" "trader2 d = fst (cm ! j)"
      and g: "d = gapOf td c (trader1 d) (trader2 d)"
      using gap_of_entry [OF m' d] unfolding c_def by blast
    have i: "i < length cm" using ij by simp
    have ord: "map fst cm = seenOrder td c" by (rule groups_order [OF cm])
    have len: "length (seenOrder td c) = length cm" using ord by (metis length_map)
    have p: "participant td c (trader1 d)" "participant td c (trader2 d)"
      using groups_nth(1) [OF cm i] groups_nth(1) [OF cm ij(2)] t by simp_all
    have "distinct (map fst cm)" using groups_entry(1) [OF cm] by (simp add: wfTraderMap_def)
    moreover have "i < length (map fst cm)" "j < length (map fst cm)" "i \<noteq> j"
      using ij i by simp_all
    ultimately have "map fst cm ! i \<noteq> map fst cm ! j"
      using nth_eq_iff_index_eq by blast
    then have ne: "trader1 d \<noteq> trader2 d" using t ij i by simp
    have ds: "diffSeconds d = firstTimestamp td c (trader2 d) - firstTimestamp td c (trader1 d)"
      by (subst g) (simp add: gapOf_def Let_def)
    have ld: "leader d = (if firstTimestamp td c (trader2 d) - firstTimestamp td c (trader1 d) \<le> 0
        then trader2 d else trader1 d)"
      by (subst g) (simp add: gapOf_def Let_def)
    have addr: "map tf_address (traderTrades m) = seenOrder td c"
      unfolding tt ord [symmetric] by (simp add: firstOf_address)
    have pos: "\<exists>i j. i < j \<and> j < length (seenOrder td c)
        \<and> seenOrder td c ! i = trader1 d \<and> seenOrder td c ! j = trader2 d"
    proof -
      have "seenOrder td c ! i = trader1 d" "seenOrder td c ! j = trader2 d"
        using t ij i unfolding ord [symmetric] by simp_all
      then show ?thesis using ij len by auto
    qed
    show ?thesis
      using p ne ds ld addr pos unfolding c_def by auto
  qed
  show ?thesis using res main by blast
qed

text \<open>
  First trades at 100 and 160: the leader is \<open>0xaaa\<close> and the gap is 60 seconds. First
  trades both at 100: the leader is the second trader met.
\<close>

theorem leader_by_timestamp_then_position_witness:
  "findMatchingTrades 1 scenarioNear = Some [nearMatch]
   \<and> timeDiffs nearMatch = [nearGap]
   \<and> firstTimestamp scenarioNear ''M1'' ''0xaaa'' = 100
   \<and> firstTimestamp scenarioNear ''M1'' ''0xbbb'' = 160
   \<and> diffSeconds nearGap = 60 \<and> leader nearGap = ''0xaaa''
   \<and> seenOrder scenarioNear ''M1'' = [''0xaaa'', ''0xbbb'']
   \<and> findMatchingTrades 1 scenarioTie = Some [tieMatch]
   \<and> timeDiffs tieMatch = [tieGap]
   \<and> firstTimestamp scenarioTie ''M1'' ''0xaaa'' = firstTimestamp scenarioTie ''M1'' ''0xbbb''
   \<and> leader tieGap = trader2 tieGap
   \<and> seenOrder scenarioTie ''M1'' = [trader1 tieGap, trader2 tieGap]"
proof -
  have e: "findMatchingTrades 1 scenarioNear = Some [nearMatch]"
    by (simp add: scenarioNear_def nearMatch_def nearGap_def matcher_eval)
  have f: "firstTimestamp scenarioNear ''M1'' ''0xaaa'' = 100"
    "firstTimestamp scenarioNear ''M1'' ''0xbbb'' = 160"
    by (simp_all add: scenarioNear_def spec_eval)
  have g: "timeDiffs nearMatch = [nearGap]" "mt_conditionId nearMatch = ''M1''"
    "trader1 nearGap = ''0xaaa''" "trader2 nearGap = ''0xbbb''"
    by (simp_all add: nearMatch_def nearGap_def)
  have o: "seenOrder scenarioNear ''M1'' = [''0xaaa'', ''0xbbb'']"
    by (simp add: scenarioNear_def seenOrder_def appendNew_def mkTrade_def)
  have near: "diffSeconds nearGap = 60 \<and> leader nearGap = ''0xaaa''"
    using leader_by_timestamp_then_position [of 1 scenarioNear nearMatch nearGap] e f g
    by simp
  have e': "findMatchingTrades 1 scenarioTie = Some [tieMatch]"
    by (simp add: scenarioTie_def tieMatch_def tieGap_def matcher_eval)
  have f': "firstTimestamp scenarioTie ''M1'' ''0xaaa'' = firstTimestamp scenarioTie ''M1'' ''0xbbb''"
    by (simp add: scenarioTie_def spec_eval)
  have g': "timeDiffs tieMatch = [tieGap]" "mt_conditionId tieMatch = ''M1''"
    "trader1 tieGap = ''0xaaa''" "trader2 tieGap = ''0xbbb''"
    by (simp_all add: tieMatch_def tieGap_def)
  have tie: "leader tieGap = trader2 tieGap
      \<and> seenOrder scenarioTie ''M1'' = [trader1 tieGap, trader2 tieGap]"
    using leader_by_timestamp_then_position [of 1 scenarioTie tieMatch tieGap] e' f' g'
    by (simp add: tieMatch_def)
  show ?thesis using e f g(1) o near e' f' g'(1) tie by simp
qed

text \<open>
  The claim's tie rule fails: with equal first-trade timestamps and the traders supplied
  as \<open>0xaaa\<close>, \<open>0xbbb\<close> the leader is \<open>0xbbb\<close>, the larger address, and supplying them the
  other way round makes \<open>0xaaa\<close> the leader.
\<close>

theorem tie_leader_counterexample:
  "leaders (findMatchingTrades 1 scenarioTie) = Some [[''0xbbb'']]
   \<and> leaders (findMatchingTrades 1 scenarioTieSwapped) = Some [[''0xaaa'']]
   \<and> firstTimestamp scenarioTie ''M1'' ''0xaaa'' = firstTimestamp scenarioTie ''M1'' ''0xbbb''
   \<and> ''0xaaa'' < ''0xbbb''"
  by (simp add: leaders_def scenarioTie_def scenarioTieSwapped_def matcher_eval spec_eval
      less_char_def)

section \<open>Summaries\<close>

lemma tallyDiff_fold:
  "foldl (tallyDiff a) acc ds =
     acc\<lparr>ta_timesFirst := ta_timesFirst acc
            + int (length (filter (\<lambda>d. (trader1 d = a \<or> trader2 d = a) \<and> leader d = a) ds)),
         ta_totalLeadTime := ta_totalLeadTime acc
            + sum_list (map (\<lambda>d. \<bar>diffSeconds d\<bar>)
                (filter (\<lambda>d. (trader1 d = a \<or> trader2 d = a) \<and> leader d = a) ds)),
         ta_leadCount := ta_leadCount acc
            + int (length (filter (\<lambda>d. (trader1 d = a \<or> trader2 d = a) \<and> leader d = a) ds)),
         ta_totalFollowTime := ta_totalFollowTime acc
            + sum_list (map (\<lambda>d. \<bar>diffSeconds d\<bar>)
                (filter (\<lambda>d. (trader1 d = a \<or> trader2 d = a) \<and> leader d \<noteq> a) ds)),
         ta_followCount := ta_followCount acc
            + int (length (filter (\<lambda>d. (trader1 d = a \<or> trader2 d = a) \<and> leader d \<noteq> a) ds))\<rparr>"
proof (induction ds arbitrary: acc)
  case Nil
  show ?case by simp
next
  case (Cons d ds)
  show ?case
    unfolding foldl_Cons Cons.IH
    by (simp add: tallyDiff_def)
qed

lemma tallyMatch_eq:
  "tallyMatch a acc m =
     foldl (tallyDiff a)
       (acc\<lparr>ta_matchedTradeCount := ta_matchedTradeCount acc
              + (if find (\<lambda>t. tf_address t = a) (traderTrades m) = None then 0 else 1)\<rparr>)
       (countedGaps a m)"
proof (cases "find (\<lambda>t. tf_address t = a) (traderTrades m)")
  case None
  then show ?thesis by (simp add: tallyMatch_def countedGaps_def)
next
  case (Some t)
  have "foldl (tallyDiff a) acc' (filter (\<lambda>d. trader1 d = a \<or> trader2 d = a) ds)
      = foldl (tallyDiff a) acc' ds" for acc' ds
    by (induction ds arbitrary: acc') (auto simp: tallyDiff_def)
  then show ?thesis using Some by (simp add: tallyMatch_def countedGaps_def)
qed

lemma countedGaps_touch: "d \<in> set (countedGaps a m) \<Longrightarrow> trader1 d = a \<or> trader2 d = a"
  by (auto simp: countedGaps_def split: if_splits)

lemma tallyDiff_counted:
  assumes "\<forall>d\<in>set ds. trader1 d = a \<or> trader2 d = a"
  shows "ta_leadCount (foldl (tallyDiff a) acc ds)
      = ta_leadCount acc + int (length (filter (\<lambda>d. leader d = a) ds))"
    and "ta_timesFirst (foldl (tallyDiff a) acc ds)
      = ta_timesFirst acc + int (length (filter (\<lambda>d. leader d = a) ds))"
    and "ta_totalLeadTime (foldl (tallyDiff a) acc ds)
      = ta_totalLeadTime acc + sum_list (map (\<lambda>d. \<bar>diffSeconds d\<bar>) (filter (\<lambda>d. leader d = a) ds))"
    and "ta_followCount (foldl (tallyDiff a) acc ds)
      = ta_followCount acc + int (length (filter (\<lambda>d. leader d \<noteq> a) ds))"
    and "ta_totalFollowTime (foldl (tallyDiff a) acc ds)
      = ta_totalFollowTime acc + sum_list (map (\<lambda>d. \<bar>diffSeconds d\<bar>) (filter (\<lambda>d. leader d \<noteq> a) ds))"
proof -
  have l: "filter (\<lambda>d. (trader1 d = a \<or> trader2 d = a) \<and> leader d = a) ds
      = filter (\<lambda>d. leader d = a) ds"
    using assms by (intro filter_cong) auto
  have f: "filter (\<lambda>d. (trader1 d = a \<or> trader2 d = a) \<and> leader d \<noteq> a) ds
      = filter (\<lambda>d. leader d \<noteq> a) ds"
    using assms by (intro filter_cong) auto
  show "ta_leadCount (foldl (tallyDiff a) acc ds)
      = ta_leadCount acc + int (length (filter (\<lambda>d. leader d = a) ds))"
    and "ta_timesFirst (foldl (tallyDiff a) acc ds)
      = ta_timesFirst acc + int (length (filter (\<lambda>d. leader d = a) ds))"
    and "ta_totalLeadTime (foldl (tallyDiff a) acc ds)
      = ta_totalLeadTime acc + sum_list (map (\<lambda>d. \<bar>diffSeconds d\<bar>) (filter (\<lambda>d. leader d = a) ds))"
    and "ta_followCount (foldl (tallyDiff a) acc ds)
      = ta_followCount acc + int (length (filter (\<lambda>d. leader d \<noteq> a) ds))"
    and "ta_totalFollowTime (foldl (tallyDiff a) acc ds)
      = ta_totalFollowTime acc + sum_list (map (\<lambda>d. \<bar>diffSeconds d\<bar>) (filter (\<lambda>d. leader d \<noteq> a) ds))"
    unfolding tallyDiff_fold l f by simp_all
qed

lemma tallyMatch_fold:
  "ta_leadCount (foldl (tallyMatch a) acc ms)
      = ta_leadCount acc
        + int (length (filter (\<lambda>d. leader d = a) (concat (map (countedGaps a) ms))))
   \<and> ta_timesFirst (foldl (tallyMatch a) acc ms)
      = ta_timesFirst acc
        + int (length (filter (\<lambda>d. leader d = a) (concat (map (countedGaps a) ms))))
   \<and> ta_totalLeadTime (foldl (tallyMatch a) acc ms)
      = ta_totalLeadTime acc
        + sum_list (map (\<lambda>d. \<bar>diffSeconds d\<bar>)
            (filter (\<lambda>d. leader d = a) (concat (map (countedGaps a) ms))))
   \<and> ta_followCount (foldl (tallyMatch a) acc ms)
      = ta_followCount acc
        + int (length (filter (\<lambda>d. leader d \<noteq> a) (concat (map (countedGaps a) ms))))
   \<and> ta_totalFollowTime (foldl (tallyMatch a) acc ms)
      = ta_totalFollowTime acc
        + sum_list (map (\<lambda>d. \<bar>diffSeconds d\<bar>)
            (filter (\<lambda>d. leader d \<noteq> a) (concat (map (countedGaps a) ms))))"
proof (induction ms arbitrary: acc)
  case Nil
  show ?case by simp
next
  case (Cons m ms)
  have t: "\<forall>d\<in>set (countedGaps a m). trader1 d = a \<or> trader2 d = a"
    using countedGaps_touch by blast
  show ?case
    unfolding foldl_Cons
    by (simp add: Cons.IH tallyMatch_eq tallyDiff_counted [OF t])
qed

lemma wfMatched_iff:
  "wfMatched ms \<longleftrightarrow> (\<forall>m\<in>set ms. \<forall>d\<in>set (timeDiffs m). wfGap m d)"
  by (simp add: wfMatched_def list_all_iff)

lemma counted_lead:
  assumes "\<forall>d\<in>set (timeDiffs m). wfGap m d"
  shows "filter (\<lambda>d. leader d = a) (countedGaps a m) = filter (\<lambda>d. leader d = a) (timeDiffs m)"
proof (cases "find (\<lambda>t. tf_address t = a) (traderTrades m)")
  case None
  then have "a \<notin> set (map tf_address (traderTrades m))"
    by (auto simp: find_None_iff)
  then have "\<forall>d\<in>set (timeDiffs m). leader d \<noteq> a"
    using assms by (auto simp: wfGap_def)
  then have "filter (\<lambda>d. leader d = a) (timeDiffs m) = []"
    by (simp add: filter_empty_conv)
  then show ?thesis using None by (simp add: countedGaps_def)
next
  case (Some t)
  have "filter (\<lambda>d. leader d = a) (filter (\<lambda>d. trader1 d = a \<or> trader2 d = a) (timeDiffs m))
      = filter (\<lambda>d. leader d = a) (timeDiffs m)"
    unfolding filter_filter using assms by (intro filter_cong) (auto simp: wfGap_def)
  then show ?thesis using Some by (simp add: countedGaps_def)
qed

lemma counted_follow:
  assumes "\<forall>d\<in>set (timeDiffs m). wfGap m d"
  shows "filter (\<lambda>d. leader d \<noteq> a) (countedGaps a m)
      = filter (\<lambda>d. (trader1 d = a \<or> trader2 d = a) \<and> leader d \<noteq> a) (timeDiffs m)"
proof (cases "find (\<lambda>t. tf_address t = a) (traderTrades m)")
  case None
  then have "a \<notin> set (map tf_address (traderTrades m))"
    by (auto simp: find_None_iff)
  then have "\<forall>d\<in>set (timeDiffs m). \<not> (trader1 d = a \<or> trader2 d = a)"
    using assms by (auto simp: wfGap_def)
  then have "filter (\<lambda>d. (trader1 d = a \<or> trader2 d = a) \<and> leader d \<noteq> a) (timeDiffs m) = []"
    by (simp add: filter_empty_conv)
  then show ?thesis using None by (simp add: countedGaps_def)
next
  case (Some t)
  have "filter (\<lambda>d. leader d \<noteq> a) (filter (\<lambda>d. trader1 d = a \<or> trader2 d = a) (timeDiffs m))
      = filter (\<lambda>d. (trader1 d = a \<or> trader2 d = a) \<and> leader d \<noteq> a) (timeDiffs m)"
    unfolding filter_filter by (intro filter_cong) auto
  then show ?thesis using Some by (simp add: countedGaps_def)
qed

lemma counted_all:
  assumes "wfMatched ms"
  shows "filter (\<lambda>d. leader d = a) (concat (map (countedGaps a) ms))
      = filter (\<lambda>d. leader d = a) (allGaps ms)"
    and "filter (\<lambda>d. leader d \<noteq> a) (concat (map (countedGaps a) ms))
      = filter (\<lambda>d. (trader1 d = a \<or> trader2 d = a) \<and> leader d \<noteq> a) (allGaps ms)"
  using assms
proof (induction ms)
  case Nil
  { case 1 show ?case by (simp add: allGaps_def) }
  { case 2 show ?case by (simp add: allGaps_def) }
next
  case (Cons m ms)
  { case 1
    have w: "\<forall>d\<in>set (timeDiffs m). wfGap m d" "wfMatched ms"
      using 1 by (simp_all add: wfMatched_def list_all_iff)
    show ?case using Cons.IH(1) [OF w(2)] counted_lead [OF w(1)]
      by (simp add: allGaps_def) }
  { case 2
    have w: "\<forall>d\<in>set (timeDiffs m). wfGap m d" "wfMatched ms"
      using 2 by (simp_all add: wfMatched_def list_all_iff)
    show ?case using Cons.IH(2) [OF w(2)] counted_follow [OF w(1)]
      by (simp add: allGaps_def) }
qed

lemma mean_of_int:
  "(if int (length xs) > 0
    then jsdiv (Num (of_int (sum_list xs))) (Num (of_int (int (length xs)))) else Num 0)
     = Num (mean (map of_int xs))"
proof (cases xs)
  case Nil
  then show ?thesis by (simp add: mean_def)
next
  case (Cons x ys)
  have "of_int (sum_list xs) = sum_list (map rat_of_int xs)"
    by (induction xs) auto
  then show ?thesis using Cons by (simp add: mean_def)
qed

lemma summarize_tally:
  "summarize ms t =
      \<lparr>trader = tt_address t, totalTrades = int (length (tt_trades t)),
       matchedTrades = ta_matchedTradeCount (foldl (tallyMatch (tt_address t)) emptyTally ms),
       cs_timesFirst = ta_timesFirst (foldl (tallyMatch (tt_address t)) emptyTally ms),
       avgLeadTimeSeconds =
         (if ta_leadCount (foldl (tallyMatch (tt_address t)) emptyTally ms) > 0
          then jsdiv (Num (of_int (ta_totalLeadTime (foldl (tallyMatch (tt_address t)) emptyTally ms))))
                     (Num (of_int (ta_leadCount (foldl (tallyMatch (tt_address t)) emptyTally ms))))
          else Num 0),
       avgFollowTimeSeconds =
         (if ta_followCount (foldl (tallyMatch (tt_address t)) emptyTally ms) > 0
          then jsdiv (Num (of_int (ta_totalFollowTime (foldl (tallyMatch (tt_address t)) emptyTally ms))))
                     (Num (of_int (ta_followCount (foldl (tallyMatch (tt_address t)) emptyTally ms))))
          else Num 0)\<rparr>"
  by (simp add: summarize_def Let_def emptyTally_def)

lemma tally_gaps:
  assumes "wfMatched ms"
  shows "ta_leadCount (foldl (tallyMatch a) emptyTally ms) = int (length (leadGaps ms a))"
    and "ta_timesFirst (foldl (tallyMatch a) emptyTally ms) = int (length (leadGaps ms a))"
    and "ta_totalLeadTime (foldl (tallyMatch a) emptyTally ms) = sum_list (leadGaps ms a)"
    and "ta_followCount (foldl (tallyMatch a) emptyTally ms) = int (length (followGaps ms a))"
    and "ta_totalFollowTime (foldl (tallyMatch a) emptyTally ms) = sum_list (followGaps ms a)"
  using tallyMatch_fold [of a emptyTally ms]
  unfolding counted_all [OF assms] leadGaps_def followGaps_def
  by (simp_all add: emptyTally_def)

lemma summarize_averages:
  assumes "wfMatched ms"
  shows "trader (summarize ms t) = tt_address t"
    and "cs_timesFirst (summarize ms t) = int (length (leadGaps ms (tt_address t)))"
    and "avgLeadTimeSeconds (summarize ms t) = Num (mean (map of_int (leadGaps ms (tt_address t))))"
    and "avgFollowTimeSeconds (summarize ms t) = Num (mean (map of_int (followGaps ms (tt_address t))))"
proof -
  define a where "a = tt_address t"
  define acc where "acc = foldl (tallyMatch a) emptyTally ms"
  have f: "ta_leadCount acc = int (length (leadGaps ms a))"
    "ta_timesFirst acc = int (length (leadGaps ms a))"
    "ta_totalLeadTime acc = sum_list (leadGaps ms a)"
    "ta_followCount acc = int (length (followGaps ms a))"
    "ta_totalFollowTime acc = sum_list (followGaps ms a)"
    unfolding acc_def by (rule tally_gaps [OF assms])+
  have s: "summarize ms t =
      \<lparr>trader = a, totalTrades = int (length (tt_trades t)),
       matchedTrades = ta_matchedTradeCount acc, cs_timesFirst = ta_timesFirst acc,
       avgLeadTimeSeconds =
         (if ta_leadCount acc > 0
          then jsdiv (Num (of_int (ta_totalLeadTime acc))) (Num (of_int (ta_leadCount acc)))
          else Num 0),
       avgFollowTimeSeconds =
         (if ta_followCount acc > 0
          then jsdiv (Num (of_int (ta_totalFollowTime acc))) (Num (of_int (ta_followCount acc)))
          else Num 0)\<rparr>"
    unfolding acc_def a_def by (rule summarize_tally)
  show "trader (summarize ms t) = tt_address t" by (simp add: s a_def)
  show "cs_timesFirst (summarize ms t) = int (length (leadGaps ms (tt_address t)))"
    by (simp add: s f a_def [symmetric])
  have "avgLeadTimeSeconds (summarize ms t) =
      (if ta_leadCount acc > 0
       then jsdiv (Num (of_int (ta_totalLeadTime acc))) (Num (of_int (ta_leadCount acc)))
       else Num 0)"
    by (simp add: s)
  also have "\<dots> = (if int (length (leadGaps ms a)) > 0
       then jsdiv (Num (of_int (sum_list (leadGaps ms a))))
                  (Num (of_int (int (length (leadGaps ms a))))) else Num 0)"
    by (simp only: f)
  also have "\<dots> = Num (mean (map of_int (leadGaps ms a)))" by (rule mean_of_int)
  finally show "avgLeadTimeSeconds (summarize ms t)
      = Num (mean (map of_int (leadGaps ms (tt_address t))))"
    by (simp only: a_def)
  have "avgFollowTimeSeconds (summarize ms t) =
      (if ta_followCount acc > 0
       then jsdiv (Num (of_int (ta_totalFollowTime acc))) (Num (of_int (ta_followCount acc)))
       else Num 0)"
    by (simp add: s)
  also have "\<dots> = (if int (length (followGaps ms a)) > 0
       then jsdiv (Num (of_int (sum_list (followGaps ms a))))
                  (Num (of_int (int (length (followGaps ms a))))) else Num 0)"
    by (simp only: f)
  also have "\<dots> = Num (mean (map of_int (followGaps ms a)))" by (rule mean_of_int)
  finally show "avgFollowTimeSeconds (summarize ms t)
      = Num (mean (map of_int (followGaps ms (tt_address t))))"
    by (simp only: a_def)
qed

lemma summarize_quotients:
  assumes "wfMatched ms"
  shows "leadGaps ms (tt_address t) = [] \<Longrightarrow> leadQuotient ms (tt_address t) = NaN"
    and "leadGaps ms (tt_address t) \<noteq> [] \<Longrightarrow>
           avgLeadTimeSeconds (summarize ms t) = leadQuotient ms (tt_address t)"
    and "followGaps ms (tt_address t) = [] \<Longrightarrow> followQuotient ms (tt_address t) = NaN"
    and "followGaps ms (tt_address t) \<noteq> [] \<Longrightarrow>
           avgFollowTimeSeconds (summarize ms t) = followQuotient ms (tt_address t)"
proof -
  note f = tally_gaps [OF assms, of "tt_address t"]
  show "leadQuotient ms (tt_address t) = NaN" if "leadGaps ms (tt_address t) = []"
    unfolding leadQuotient_def tallyOf_def f using that by simp
  show "followQuotient ms (tt_address t) = NaN" if "followGaps ms (tt_address t) = []"
    unfolding followQuotient_def tallyOf_def f using that by simp
  show "avgLeadTimeSeconds (summarize ms t) = leadQuotient ms (tt_address t)"
    if "leadGaps ms (tt_address t) \<noteq> []"
  proof -
    have "ta_leadCount (foldl (tallyMatch (tt_address t)) emptyTally ms) > 0"
      unfolding f using that by simp
    then show ?thesis
      by (subst summarize_tally) (simp add: leadQuotient_def tallyOf_def)
  qed
  show "avgFollowTimeSeconds (summarize ms t) = followQuotient ms (tt_address t)"
    if "followGaps ms (tt_address t) \<noteq> []"
  proof -
    have "ta_followCount (foldl (tallyMatch (tt_address t)) emptyTally ms) > 0"
      unfolding f using that by simp
    then show ?thesis
      by (subst summarize_tally) (simp add: followQuotient_def tallyOf_def)
  qed
qed

lemma findMatchingTrades_wfMatched: "wfMatched (jsSort matchedCmp (matchedOf h td))"
proof -
  have "wfGap m d" if m: "m \<in> set (matchedOf h td)" and d: "d \<in> set (timeDiffs m)" for m d
  proof -
    obtain cm i j where tt: "traderTrades m = map firstOf cm"
      and ij: "i < j" "j < length cm"
      and t: "trader1 d = fst (cm ! i)" "trader2 d = fst (cm ! j)"
      and g: "d = gapOf td (mt_conditionId m) (trader1 d) (trader2 d)"
      using gap_of_entry [OF m d] by blast
    have i: "i < length cm" using ij by simp
    have addr: "map tf_address (traderTrades m) = map fst cm"
      unfolding tt by (simp add: firstOf_address)
    have "trader1 d \<in> set (map fst cm)" "trader2 d \<in> set (map fst cm)"
      using t i ij(2) by (metis length_map nth_map nth_mem)+
    moreover have "leader d = trader1 d \<or> leader d = trader2 d"
      by (subst (1 2) g) (simp add: gapOf_def Let_def)
    ultimately show ?thesis by (simp add: wfGap_def addr)
  qed
  then show ?thesis by (simp add: wfMatched_iff set_jsSort)
qed

text \<open>Unfolding rules that evaluate the summaries on a concrete input.\<close>

lemmas summary_eval =
  calculateSummaries_def summarize_def tallyMatch_def tallyDiff_def jsSort_def

text \<open>
  C4. For every summary \<^verbatim>\<open>calculateSummaries\<close> produces from well-formed matched markets,
  and the matcher's result is always well formed: \<open>timesFirst\<close> is the number of gap
  records the trader leads, \<open>avgLeadTimeSeconds\<close> is the arithmetic mean of the absolute
  gaps of those records, and \<open>avgFollowTimeSeconds\<close> is the arithmetic mean of the
  absolute gaps of the records the trader is part of without leading. Neither average is
  ever \<^verbatim>\<open>NaN\<close>. With such records the average is the quotient of the accumulated total
  by the count; with none, total and count are both 0, their quotient is \<^verbatim>\<open>NaN\<close> by
  JavaScript's division, and the average is exactly 0, by the guard on the count.
\<close>

theorem summary_averages:
  "(wfMatched ms \<longrightarrow>
      (\<forall>s\<in>set (calculateSummaries ms td).
          cs_timesFirst s = int (length (leadGaps ms (trader s)))
        \<and> avgLeadTimeSeconds s = Num (mean (map of_int (leadGaps ms (trader s))))
        \<and> avgFollowTimeSeconds s = Num (mean (map of_int (followGaps ms (trader s))))
        \<and> avgLeadTimeSeconds s \<noteq> NaN \<and> avgFollowTimeSeconds s \<noteq> NaN
        \<and> (leadGaps ms (trader s) \<noteq> [] \<longrightarrow> avgLeadTimeSeconds s = leadQuotient ms (trader s))
        \<and> (leadGaps ms (trader s) = [] \<longrightarrow>
              avgLeadTimeSeconds s = Num 0 \<and> leadQuotient ms (trader s) = NaN)
        \<and> (followGaps ms (trader s) \<noteq> [] \<longrightarrow>
              avgFollowTimeSeconds s = followQuotient ms (trader s))
        \<and> (followGaps ms (trader s) = [] \<longrightarrow>
              avgFollowTimeSeconds s = Num 0 \<and> followQuotient ms (trader s) = NaN)))
   \<and> (\<exists>ms'. findMatchingTrades h td = Some ms' \<and> wfMatched ms')"
proof -
  have one: "cs_timesFirst s = int (length (leadGaps ms (trader s)))
        \<and> avgLeadTimeSeconds s = Num (mean (map of_int (leadGaps ms (trader s))))
        \<and> avgFollowTimeSeconds s = Num (mean (map of_int (followGaps ms (trader s))))
        \<and> avgLeadTimeSeconds s \<noteq> NaN \<and> avgFollowTimeSeconds s \<noteq> NaN
        \<and> (leadGaps ms (trader s) \<noteq> [] \<longrightarrow> avgLeadTimeSeconds s = leadQuotient ms (trader s))
        \<and> (leadGaps ms (trader s) = [] \<longrightarrow>
              avgLeadTimeSeconds s = Num 0 \<and> leadQuotient ms (trader s) = NaN)
        \<and> (followGaps ms (trader s) \<noteq> [] \<longrightarrow>
              avgFollowTimeSeconds s = followQuotient ms (trader s))
        \<and> (followGaps ms (trader s) = [] \<longrightarrow>
              avgFollowTimeSeconds s = Num 0 \<and> followQuotient ms (trader s) = NaN)"
    if wf: "wfMatched ms" and s: "s \<in> set (calculateSummaries ms td)" for s
  proof -
    obtain t where t: "s = summarize ms t"
      using s by (auto simp: calculateSummaries_def set_jsSort)
    have tr: "trader s = tt_address t"
      and tf: "cs_timesFirst s = int (length (leadGaps ms (tt_address t)))"
      and al: "avgLeadTimeSeconds s = Num (mean (map of_int (leadGaps ms (tt_address t))))"
      and af: "avgFollowTimeSeconds s = Num (mean (map of_int (followGaps ms (tt_address t))))"
      unfolding t by (rule summarize_averages [OF wf])+
    note q = summarize_quotients [OF wf, of t, folded t]
    have l0: "leadGaps ms (tt_address t) = [] \<longrightarrow> avgLeadTimeSeconds s = Num 0"
      using al by (simp add: mean_def)
    have f0: "followGaps ms (tt_address t) = [] \<longrightarrow> avgFollowTimeSeconds s = Num 0"
      using af by (simp add: mean_def)
    have n: "avgLeadTimeSeconds s \<noteq> NaN" "avgFollowTimeSeconds s \<noteq> NaN"
      using al af by simp_all
    show ?thesis unfolding tr using tf al af n q l0 f0 by blast
  qed
  have two: "\<exists>ms'. findMatchingTrades h td = Some ms' \<and> wfMatched ms'"
    using findMatchingTrades_wfMatched [of h td] by (simp add: findMatchingTrades_pure)
  show ?thesis using one two by blast
qed

text \<open>
  The scenario of the claim: \<open>0xaaa\<close> leads once in \<open>M1\<close> and once in \<open>M2\<close> and follows in
  \<open>M3\<close> with gaps of 90 and 30 seconds, so \<open>timesFirst\<close> is 2 and the follow average is 60.
  With no matched market at all, both averages of both traders are 0, where the
  quotients of the accumulators are \<^verbatim>\<open>NaN\<close>.
\<close>

theorem summary_averages_witness:
  "map (\<lambda>s. (trader s, cs_timesFirst s, avgFollowTimeSeconds s))
     (calculateSummaries (the (findMatchingTrades 1 scenarioThree)) scenarioThree)
     = [(''0xaaa'', 2, Num 60), (''0xbbb'', 2, Num 55), (''0xccc'', 1, Num 60)]
   \<and> wfMatched (the (findMatchingTrades 1 scenarioThree))
   \<and> followGaps (the (findMatchingTrades 1 scenarioThree)) ''0xaaa'' = [90, 30]
   \<and> leadGaps (the (findMatchingTrades 1 scenarioThree)) ''0xaaa'' = [60, 50]
   \<and> mean (map of_int (followGaps (the (findMatchingTrades 1 scenarioThree)) ''0xaaa'')) = 60
   \<and> followQuotient (the (findMatchingTrades 1 scenarioThree)) ''0xaaa'' = Num 60
   \<and> findMatchingTrades 1 scenarioFar = Some []
   \<and> map (\<lambda>s. (trader s, avgLeadTimeSeconds s, avgFollowTimeSeconds s))
        (calculateSummaries [] scenarioFar) = [(''0xaaa'', Num 0, Num 0), (''0xbbb'', Num 0, Num 0)]
   \<and> leadQuotient [] ''0xaaa'' = NaN \<and> followQuotient [] ''0xaaa'' = NaN"
proof -
  define ms where "ms = the (findMatchingTrades 1 scenarioThree)"
  have gaps: "map timeDiffs ms =
      [[\<lparr>trader1 = ''0xaaa'', trader2 = ''0xbbb'', diffSeconds = - 90, leader = ''0xbbb''\<rparr>,
        \<lparr>trader1 = ''0xaaa'', trader2 = ''0xccc'', diffSeconds = - 30, leader = ''0xccc''\<rparr>,
        \<lparr>trader1 = ''0xbbb'', trader2 = ''0xccc'', diffSeconds = 60, leader = ''0xbbb''\<rparr>],
       [\<lparr>trader1 = ''0xaaa'', trader2 = ''0xbbb'', diffSeconds = 60, leader = ''0xaaa''\<rparr>],
       [\<lparr>trader1 = ''0xaaa'', trader2 = ''0xbbb'', diffSeconds = 50, leader = ''0xaaa''\<rparr>]]"
    unfolding ms_def by (simp add: scenarioThree_def matcher_eval)
  have fg: "followGaps ms ''0xaaa'' = [90, 30]" and lg: "leadGaps ms ''0xaaa'' = [60, 50]"
    by (simp_all add: followGaps_def leadGaps_def allGaps_def gaps)
  have sm: "map (\<lambda>s. (trader s, cs_timesFirst s, avgFollowTimeSeconds s))
     (calculateSummaries ms scenarioThree)
     = [(''0xaaa'', 2, Num 60), (''0xbbb'', 2, Num 55), (''0xccc'', 1, Num 60)]"
    unfolding ms_def by (simp add: scenarioThree_def matcher_eval summary_eval)
  have wf: "wfMatched ms"
    using summary_averages [of ms scenarioThree 1] by (auto simp: ms_def)
  have mn: "mean (map of_int (followGaps ms ''0xaaa'')) = 60"
    by (simp add: fg mean_def)
  have far: "findMatchingTrades 1 scenarioFar = Some []"
    by (simp add: scenarioFar_def matcher_eval)
  have z: "map (\<lambda>s. (trader s, avgLeadTimeSeconds s, avgFollowTimeSeconds s))
        (calculateSummaries [] scenarioFar) = [(''0xaaa'', Num 0, Num 0), (''0xbbb'', Num 0, Num 0)]"
    by (simp add: scenarioFar_def summary_eval)
  have a: "summarize ms \<lparr>tt_address = ''0xaaa'',
       tt_trades = [mkTrade ''M1'' 100, mkTrade ''M2'' 200, mkTrade ''M3'' 1090]\<rparr>
      \<in> set (calculateSummaries ms scenarioThree)"
    by (simp add: calculateSummaries_def set_jsSort scenarioThree_def)
  have "followGaps ms ''0xaaa'' \<noteq> []" by (simp add: fg)
  then have "avgFollowTimeSeconds (summarize ms \<lparr>tt_address = ''0xaaa'',
       tt_trades = [mkTrade ''M1'' 100, mkTrade ''M2'' 200, mkTrade ''M3'' 1090]\<rparr>)
      = followQuotient ms ''0xaaa''"
    using summary_averages [of ms scenarioThree 1] wf a
    by (auto simp: summarize_def Let_def)
  moreover have "avgFollowTimeSeconds (summarize ms \<lparr>tt_address = ''0xaaa'',
       tt_trades = [mkTrade ''M1'' 100, mkTrade ''M2'' 200, mkTrade ''M3'' 1090]\<rparr>) = Num 60"
    unfolding ms_def by (simp add: scenarioThree_def matcher_eval summary_eval)
  ultimately have fq: "followQuotient ms ''0xaaa'' = Num 60" by simp
  have q0: "leadQuotient [] ''0xaaa'' = NaN" "followQuotient [] ''0xaaa'' = NaN"
    by (simp_all add: leadQuotient_def followQuotient_def tallyOf_def emptyTally_def)
  show ?thesis
    using sm wf fg lg mn fq far z q0 unfolding ms_def by blast
qed

section \<open>First touches\<close>

lemma update_absent: "map_of al k = None \<Longrightarrow> AList.update k v al = al @ [(k, v)]"
  by (induction al) (auto split: if_splits)

lemma map_of_map_set: "map_of (map_set m k v) k' = (if k' = k then Some v else map_of m k')"
  by (simp add: map_set_def update_conv')

lemma sorted_hd_Min:
  fixes xs :: "'a::linorder list"
  assumes "sorted xs" and "xs \<noteq> []"
  shows "hd xs = Min (set xs)"
proof -
  obtain y ys where xs: "xs = y # ys" using assms(2) by (cases xs) auto
  have "\<forall>z\<in>set xs. y \<le> z" using assms(1) xs by auto
  then have "Min (set xs) = y" using xs by (intro Min_eqI) auto
  then show ?thesis by (simp add: xs)
qed

lemma jsSum_single: "jsSum [x] = x"
  by (simp add: jsSum_def)

lemma jsSum_snoc: "xs \<noteq> [] \<Longrightarrow> jsSum (xs @ [x]) = jsadd (jsSum xs) x"
  by (cases xs) (simp_all add: jsSum_def)

lemma traderOrderOf_snoc:
  "traderOrderOf (trades @ [t]) = traderOrderStep (traderOrderOf trades) t"
  by (simp add: traderOrderOf_def)

lemma traderOrderStep_other:
  assumes "nm_proxyWallet t \<noteq> Some w"
  shows "map_of (traderOrderStep m t) w = map_of m w"
  using assms
  by (auto simp: traderOrderStep_def falsy_def map_get_def map_of_map_set split: option.splits)

lemma traderOrderOf_lookup:
  "map_of (traderOrderOf trades) w =
     (if w \<noteq> [] \<and> tradesBy w trades \<noteq> []
      then Some \<lparr>firstTrade = hd (tradesBy w trades),
                 to_totalVolume = jsSum (map nm_usdcSize (tradesBy w trades)),
                 to_tradeCount = int (length (tradesBy w trades))\<rparr>
      else None)"
proof (induction trades rule: rev_induct)
  case Nil
  show ?case by (simp add: traderOrderOf_def tradesBy_def)
next
  case (snoc t trades)
  show ?case
  proof (cases "falsy (nm_proxyWallet t)")
    case True
    show ?thesis
    proof (cases "w = []")
      case True
      then show ?thesis using snoc \<open>falsy (nm_proxyWallet t)\<close>
        by (simp add: traderOrderOf_snoc traderOrderStep_def)
    next
      case False
      then have "tradesBy w (trades @ [t]) = tradesBy w trades"
        using \<open>falsy (nm_proxyWallet t)\<close> by (auto simp: tradesBy_def falsy_def)
      then show ?thesis
        using snoc \<open>falsy (nm_proxyWallet t)\<close>
        by (simp add: traderOrderOf_snoc traderOrderStep_def)
    qed
  next
    case False
    then obtain v where v: "nm_proxyWallet t = Some v" "v \<noteq> []"
      by (auto simp: falsy_def)
    show ?thesis
    proof (cases "w = v")
      case diff: False
      then have "tradesBy w (trades @ [t]) = tradesBy w trades"
        using v by (simp add: tradesBy_def)
      moreover have "map_of (traderOrderStep (traderOrderOf trades) t) w = map_of (traderOrderOf trades) w"
        by (rule traderOrderStep_other) (use diff v in simp)
      ultimately show ?thesis
        using snoc by (simp add: traderOrderOf_snoc)
    next
      case same: True
      have tb: "tradesBy w (trades @ [t]) = tradesBy w trades @ [t]"
        using v same by (simp add: tradesBy_def)
      show ?thesis
      proof (cases "tradesBy w trades = []")
        case True
        then have "map_get (traderOrderOf trades) v = None"
          using snoc same by (simp add: map_get_def)
        then show ?thesis
          using False v same True tb
          by (simp add: traderOrderOf_snoc traderOrderStep_def map_of_map_set jsSum_single jsSum_snoc)
      next
        case ne: False
        then have "map_get (traderOrderOf trades) v =
            Some \<lparr>firstTrade = hd (tradesBy w trades),
                 to_totalVolume = jsSum (map nm_usdcSize (tradesBy w trades)),
                 to_tradeCount = int (length (tradesBy w trades))\<rparr>"
          using snoc same v by (simp add: map_get_def)
        then show ?thesis
          using False v same ne tb
          by (simp add: traderOrderOf_snoc traderOrderStep_def map_of_map_set jsSum_single jsSum_snoc)
      qed
    qed
  qed
qed

lemma traderOrderStep_later:
  assumes "map_of m w = Some d" and "nm_proxyWallet t = Some w" and "w \<noteq> []"
  shows "map_of (traderOrderStep m t) w =
     Some (d\<lparr>to_totalVolume := jsadd (to_totalVolume d) (nm_usdcSize t),
             to_tradeCount := to_tradeCount d + 1\<rparr>)"
  using assms by (simp add: traderOrderStep_def falsy_def map_get_def map_of_map_set)

lemma traderFirstTrades_snoc:
  "traderFirstTrades (trades @ [t]) = firstTradeStep (traderFirstTrades trades) t"
  by (simp add: traderFirstTrades_def)

lemma firstTradeStep_other:
  assumes "n_owner t \<noteq> Some w"
  shows "map_of (firstTradeStep m t) w = map_of m w"
  using assms
  by (auto simp: firstTradeStep_def falsy_def map_get_def map_of_map_set split: option.splits)

lemma firstTradeStep_later:
  assumes "map_of m w = Some e" and "n_owner t = Some w" and "w \<noteq> []"
  shows "map_of (firstTradeStep m t) w = Some (e\<lparr>fj_volume := jsadd (fj_volume e) (n_usdcSize t)\<rparr>)"
  using assms by (simp add: firstTradeStep_def falsy_def map_get_def map_of_map_set)

lemma firstTradeStep_first:
  assumes "map_of m w = None" and "n_owner t = Some w" and "w \<noteq> []"
  shows "map_of (firstTradeStep m t) w =
     Some \<lparr>fj_timestamp = n_timestamp t, fj_volume = n_usdcSize t,
           fj_position = int (length m) + 1\<rparr>"
  using assms by (simp add: firstTradeStep_def falsy_def map_get_def map_of_map_set)

lemma traderFirstTrades_lookup:
  "map_option (\<lambda>e. (fj_timestamp e, fj_volume e)) (map_of (traderFirstTrades trades) w) =
     (if w \<noteq> [] \<and> ownedBy w trades \<noteq> []
      then Some (n_timestamp (hd (ownedBy w trades)),
                 jsSum (map n_usdcSize (ownedBy w trades)))
      else None)"
proof (induction trades rule: rev_induct)
  case Nil
  show ?case by (simp add: traderFirstTrades_def ownedBy_def)
next
  case (snoc t trades)
  show ?case
  proof (cases "n_owner t = Some w \<and> w \<noteq> []")
    case False
    have o: "n_owner t \<noteq> Some w \<or> w = []" using False by blast
    have same: "map_of (firstTradeStep (traderFirstTrades trades) t) w
        = map_of (traderFirstTrades trades) w"
    proof (cases "n_owner t = Some w")
      case True
      then have "falsy (n_owner t)" using o by (simp add: falsy_def)
      then show ?thesis by (simp add: firstTradeStep_def)
    next
      case False
      then show ?thesis by (rule firstTradeStep_other)
    qed
    have "w \<noteq> [] \<Longrightarrow> ownedBy w (trades @ [t]) = ownedBy w trades"
      using o by (auto simp: ownedBy_def)
    then show ?thesis
      using snoc same by (cases "w = []") (simp_all add: traderFirstTrades_snoc)
  next
    case True
    then have ow: "n_owner t = Some w" and w: "w \<noteq> []" by simp_all
    have tb: "ownedBy w (trades @ [t]) = ownedBy w trades @ [t]"
      using ow by (simp add: ownedBy_def)
    show ?thesis
    proof (cases "map_of (traderFirstTrades trades) w")
      case None
      then have emp: "ownedBy w trades = []" using snoc w by (simp split: if_splits)
      show ?thesis
        unfolding traderFirstTrades_snoc firstTradeStep_first [OF None ow w]
        using w tb emp by (simp add: jsSum_single)
    next
      case (Some e)
      then have ne: "ownedBy w trades \<noteq> []"
        and e: "fj_timestamp e = n_timestamp (hd (ownedBy w trades))"
          "fj_volume e = jsSum (map n_usdcSize (ownedBy w trades))"
        using snoc w by (simp_all split: if_splits)
      show ?thesis
        unfolding traderFirstTrades_snoc firstTradeStep_later [OF Some ow w]
        using w tb ne e by (simp add: jsSum_snoc)
    qed
  qed
qed


lemma filter_sorted_min:
  fixes key :: "'a \<Rightarrow> rat"
  assumes "sorted (map key trades)" and "filter P trades \<noteq> []"
  shows "key (hd (filter P trades)) = Min (key ` set (filter P trades))"
proof -
  have "sorted (map key (filter P trades))" using assms(1) by (rule sorted_filter)
  then have "hd (map key (filter P trades)) = Min (set (map key (filter P trades)))"
    using assms(2) by (intro sorted_hd_Min) auto
  then show ?thesis using assms(2) by (simp add: hd_map)
qed

lemma numOf_finite: "finiteNum x \<Longrightarrow> x = Num (numOf x)"
  by (cases x) simp_all

lemma tradesBy_sorted_min:
  assumes "list_all (marketHasTime sn) trades" and "sorted (map (marketTimeOf sn) trades)"
    and "tradesBy w trades \<noteq> []"
  shows "ToNumber sn (nm_timestamp (hd (tradesBy w trades)))
      = Num (Min (marketTimeOf sn ` set (tradesBy w trades)))"
proof -
  have "hd (tradesBy w trades) \<in> set trades"
    using assms(3) hd_in_set [OF assms(3)] by (auto simp: tradesBy_def)
  then have "marketHasTime sn (hd (tradesBy w trades))"
    using assms(1) by (simp add: list_all_iff)
  then have "ToNumber sn (nm_timestamp (hd (tradesBy w trades)))
      = Num (marketTimeOf sn (hd (tradesBy w trades)))"
    unfolding marketHasTime_def marketTimeOf_def by (rule numOf_finite)
  then show ?thesis
    using filter_sorted_min [of "marketTimeOf sn" trades "\<lambda>t. nm_proxyWallet t = Some w"]
      assms(2,3)
    by (simp add: tradesBy_def)
qed

lemma ownedBy_sorted_min:
  assumes "list_all (hasTime sn) trades" and "sorted (map (timeOf sn) trades)"
    and "ownedBy w trades \<noteq> []"
  shows "ToNumber sn (n_timestamp (hd (ownedBy w trades)))
      = Num (Min (timeOf sn ` set (ownedBy w trades)))"
proof -
  have "hd (ownedBy w trades) \<in> set trades"
    using assms(3) hd_in_set [OF assms(3)] by (auto simp: ownedBy_def)
  then have "hasTime sn (hd (ownedBy w trades))"
    using assms(1) by (simp add: list_all_iff)
  then have "ToNumber sn (n_timestamp (hd (ownedBy w trades)))
      = Num (timeOf sn (hd (ownedBy w trades)))"
    unfolding hasTime_def timeOf_def by (rule numOf_finite)
  then show ?thesis
    using filter_sorted_min [of "timeOf sn" trades "\<lambda>t. n_owner t = Some w"] assms(2,3)
    by (simp add: ownedBy_def)
qed

lemma firstTraders_sorted:
  assumes "list_all (marketHasTime sn) raw"
  shows "firstTraders sn raw = Some (traderOrderOf (sort_key (marketTimeOf sn) raw))"
  using assms
  by (simp add: firstTraders_def marketTimestampCmp_def [abs_def] jsSortBy_sub
      marketHasTime_def [abs_def] marketTimeOf_def [abs_def])

lemma firstTraders_min:
  assumes "list_all (marketHasTime sn) raw" and "w \<noteq> []" and "tradesBy w raw \<noteq> []"
  shows "\<exists>m d. firstTraders sn raw = Some m \<and> map_of m w = Some d
      \<and> ToNumber sn (nm_timestamp (firstTrade d))
          = Num (Min (marketTimeOf sn ` set (tradesBy w raw)))
      \<and> to_tradeCount d = int (length (tradesBy w raw))"
proof -
  define srt where "srt = sort_key (marketTimeOf sn) raw"
  have sorted: "sorted (map (marketTimeOf sn) srt)" unfolding srt_def by (rule sorted_sort_key)
  have all: "list_all (marketHasTime sn) srt" using assms(1) by (simp add: srt_def list_all_iff)
  have st: "set (tradesBy w srt) = set (tradesBy w raw)" by (simp add: srt_def tradesBy_def)
  have len: "length (tradesBy w srt) = length (tradesBy w raw)"
    by (simp add: srt_def tradesBy_def filter_sort)
  have ne: "tradesBy w srt \<noteq> []" using assms(3) st by (metis set_empty)
  define d where "d = \<lparr>firstTrade = hd (tradesBy w srt),
                 to_totalVolume = jsSum (map nm_usdcSize (tradesBy w srt)),
                 to_tradeCount = int (length (tradesBy w srt))\<rparr>"
  have look: "map_of (traderOrderOf srt) w = Some d"
    unfolding traderOrderOf_lookup d_def using assms(2) ne by simp
  have "ToNumber sn (nm_timestamp (firstTrade d))
      = Num (Min (marketTimeOf sn ` set (tradesBy w raw)))"
    using tradesBy_sorted_min [OF all sorted ne] st by (simp add: d_def)
  moreover have "to_tradeCount d = int (length (tradesBy w raw))" by (simp add: d_def len)
  ultimately show ?thesis
    using firstTraders_sorted [OF assms(1)] look unfolding srt_def by blast
qed

lemma leaderFirst_min:
  assumes "list_all (hasTime sn) raw" and "w \<noteq> []" and "ownedBy w raw \<noteq> []"
  shows "\<exists>srt e. jsSortBy (timestampCmp sn) raw = Some srt
      \<and> map_of (traderFirstTrades srt) w = Some e
      \<and> ToNumber sn (fj_timestamp e) = Num (Min (timeOf sn ` set (ownedBy w raw)))"
proof -
  define srt where "srt = sort_key (timeOf sn) raw"
  have s: "jsSortBy (timestampCmp sn) raw = Some srt"
    using assms(1)
    by (simp add: srt_def timestampCmp_def [abs_def] jsSortBy_sub hasTime_def [abs_def]
        timeOf_def [abs_def])
  have sorted: "sorted (map (timeOf sn) srt)" unfolding srt_def by (rule sorted_sort_key)
  have all: "list_all (hasTime sn) srt" using assms(1) by (simp add: srt_def list_all_iff)
  have st: "set (ownedBy w srt) = set (ownedBy w raw)" by (simp add: srt_def ownedBy_def)
  have ne: "ownedBy w srt \<noteq> []" using assms(3) st by (metis set_empty)
  have "map_option (\<lambda>e. (fj_timestamp e, fj_volume e)) (map_of (traderFirstTrades srt) w)
      = Some (n_timestamp (hd (ownedBy w srt)), jsSum (map n_usdcSize (ownedBy w srt)))"
    unfolding traderFirstTrades_lookup using assms(2) ne by simp
  then obtain e where e: "map_of (traderFirstTrades srt) w = Some e"
    and t: "fj_timestamp e = n_timestamp (hd (ownedBy w srt))"
    by auto
  have "ToNumber sn (fj_timestamp e) = Num (Min (timeOf sn ` set (ownedBy w raw)))"
    using ownedBy_sorted_min [OF all sorted ne] st t by simp
  then show ?thesis using s e by blast
qed


lemma update_present_proj:
  assumes "map_of m k = Some e" and "g v = g e"
  shows "map (\<lambda>x. g (snd x)) (AList.update k v m) = map (\<lambda>x. g (snd x)) m"
  using assms by (induction m) (auto split: if_splits)

lemma update_present_keys:
  assumes "map_of m k = Some e"
  shows "map fst (AList.update k v m) = map fst m"
  using assms by (induction m) (auto split: if_splits)

lemma map_of_Some_key: "map_of m k = Some e \<Longrightarrow> k \<in> set (map fst m)"
  by (metis map_of_eq_None_iff option.distinct(1) set_map)

lemma map_of_None_key: "map_of m k = None \<Longrightarrow> k \<notin> set (map fst m)"
  by (simp add: map_of_eq_None_iff)

lemma firstTradeStep_keys:
  "map fst (firstTradeStep m t) =
     (if falsy (n_owner t) then map fst m else appendNew (map fst m) (the (n_owner t)))"
proof (cases "falsy (n_owner t)")
  case True
  then show ?thesis by (simp add: firstTradeStep_def)
next
  case False
  show ?thesis
  proof (cases "map_of m (the (n_owner t))")
    case None
    then show ?thesis
      using False map_of_None_key [OF None]
      by (simp add: firstTradeStep_def map_get_def map_set_def update_absent appendNew_def)
  next
    case (Some e)
    then show ?thesis
      using False map_of_Some_key [OF Some] update_present_keys [OF Some]
      by (simp add: firstTradeStep_def map_get_def map_set_def appendNew_def)
  qed
qed

lemma traderFirstTrades_keys: "map fst (traderFirstTrades trades) = ownersSeen trades"
proof (induction trades rule: rev_induct)
  case Nil
  show ?case by (simp add: traderFirstTrades_def ownersSeen_def)
next
  case (snoc t trades)
  then show ?case
    by (simp add: traderFirstTrades_snoc firstTradeStep_keys ownersSeen_def)
qed

lemma firstTradeStep_positions:
  assumes "map (\<lambda>x. fj_position (snd x)) m = map (\<lambda>i. int i + 1) [0..<length m]"
  shows "map (\<lambda>x. fj_position (snd x)) (firstTradeStep m t)
      = map (\<lambda>i. int i + 1) [0..<length (firstTradeStep m t)]"
proof (cases "falsy (n_owner t)")
  case True
  then show ?thesis using assms by (simp add: firstTradeStep_def)
next
  case False
  show ?thesis
  proof (cases "map_of m (the (n_owner t))")
    case None
    then show ?thesis
      using False assms
      by (simp add: firstTradeStep_def map_get_def map_set_def update_absent)
  next
    case (Some e)
    have l: "length (AList.update (the (n_owner t)) v m) = length m" for v
      using update_present_keys [OF Some, of v] by (metis length_map)
    show ?thesis
      using False Some assms
        update_present_proj [OF Some, of fj_position
          "e\<lparr>fj_volume := jsadd (fj_volume e) (n_usdcSize t)\<rparr>"]
      by (simp add: firstTradeStep_def map_get_def map_set_def l)
  qed
qed

lemma traderFirstTrades_positions:
  "map (\<lambda>x. fj_position (snd x)) (traderFirstTrades trades)
     = map (\<lambda>i. int i + 1) [0..<length (ownersSeen trades)]"
proof -
  have "map (\<lambda>x. fj_position (snd x)) (traderFirstTrades trades)
     = map (\<lambda>i. int i + 1) [0..<length (traderFirstTrades trades)]"
  proof (induction trades rule: rev_induct)
    case Nil
    show ?case by (simp add: traderFirstTrades_def)
  next
    case (snoc t trades)
    show ?case
      unfolding traderFirstTrades_snoc by (rule firstTradeStep_positions [OF snoc])
  qed
  moreover have "length (traderFirstTrades trades) = length (ownersSeen trades)"
    using traderFirstTrades_keys [of trades] by (metis length_map)
  ultimately show ?thesis by simp
qed

lemma traderOrderStep_keys:
  "map fst (traderOrderStep m t) =
     (if falsy (nm_proxyWallet t) then map fst m
      else appendNew (map fst m) (the (nm_proxyWallet t)))"
proof (cases "falsy (nm_proxyWallet t)")
  case True
  then show ?thesis by (simp add: traderOrderStep_def)
next
  case False
  show ?thesis
  proof (cases "map_of m (the (nm_proxyWallet t))")
    case None
    then show ?thesis
      using False map_of_None_key [OF None]
      by (simp add: traderOrderStep_def map_get_def map_set_def update_absent appendNew_def)
  next
    case (Some e)
    then show ?thesis
      using False map_of_Some_key [OF Some] update_present_keys [OF Some]
      by (simp add: traderOrderStep_def map_get_def map_set_def appendNew_def)
  qed
qed

lemma traderOrderOf_keys: "map fst (traderOrderOf trades) = walletsSeen trades"
proof (induction trades rule: rev_induct)
  case Nil
  show ?case by (simp add: traderOrderOf_def walletsSeen_def)
next
  case (snoc t trades)
  then show ?case
    by (simp add: traderOrderOf_snoc traderOrderStep_keys walletsSeen_def)
qed

lemma ascending_min:
  fixes key :: "'a \<Rightarrow> rat"
  assumes "sorted (map key xs)" and "xs \<noteq> []"
  shows "key (hd xs) = Min (key ` set xs)"
proof -
  have "hd (map key xs) = Min (set (map key xs))"
    using assms by (intro sorted_hd_Min) auto
  then show ?thesis using assms(2) by (simp add: hd_map)
qed

lemma tradesBy_ascending_min:
  assumes "list_all (marketHasTime sn) (tradesBy w trades)"
    and "sorted (map (marketTimeOf sn) (tradesBy w trades))"
    and "tradesBy w trades \<noteq> []"
  shows "ToNumber sn (nm_timestamp (hd (tradesBy w trades)))
      = Num (Min (marketTimeOf sn ` set (tradesBy w trades)))"
proof -
  have "marketHasTime sn (hd (tradesBy w trades))"
    using assms(1) hd_in_set [OF assms(3)] by (simp add: list_all_iff)
  then have "ToNumber sn (nm_timestamp (hd (tradesBy w trades)))
      = Num (marketTimeOf sn (hd (tradesBy w trades)))"
    unfolding marketHasTime_def marketTimeOf_def by (rule numOf_finite)
  then show ?thesis using ascending_min [OF assms(2,3)] by simp
qed

lemma ownedBy_ascending_min:
  assumes "list_all (hasTime sn) (ownedBy w trades)"
    and "sorted (map (timeOf sn) (ownedBy w trades))"
    and "ownedBy w trades \<noteq> []"
  shows "ToNumber sn (n_timestamp (hd (ownedBy w trades)))
      = Num (Min (timeOf sn ` set (ownedBy w trades)))"
proof -
  have "hasTime sn (hd (ownedBy w trades))"
    using assms(1) hd_in_set [OF assms(3)] by (simp add: list_all_iff)
  then have "ToNumber sn (n_timestamp (hd (ownedBy w trades)))
      = Num (timeOf sn (hd (ownedBy w trades)))"
    unfolding hasTime_def timeOf_def by (rule numOf_finite)
  then show ?thesis using ascending_min [OF assms(2,3)] by simp
qed

text \<open>
  C3. For every trader \<open>w\<close>, the first-trade loop keeps a record for \<open>w\<close> exactly when \<open>w\<close>
  has a trade among the trades it runs over, and the record then holds the first of the
  trader's trades in the order of the run, the volume added up over the trader's trades
  and (first-trader finder) their number. When the trader's trades come in ascending
  timestamp order, that first trade has the least timestamp among them. A later
  trade of the same trader changes the volume and the count only, so the first trade,
  with its timestamp, side and price, stays. Both scripts sort before the loop, so when
  every timestamp converts to a finite number the record holds the trader's least
  timestamp for any input order. The leader finder keeps the first timestamp, the volume
  and the position, and a later trade changes the volume only. The records stand in the
  order in which the loop first meets their traders, and the position is the trader's
  place in that order, counted from 1.
\<close>

theorem first_touch:
  "map_of (traderOrderOf trades) w =
      (if w \<noteq> [] \<and> tradesBy w trades \<noteq> []
       then Some \<lparr>firstTrade = hd (tradesBy w trades),
                  to_totalVolume = jsSum (map nm_usdcSize (tradesBy w trades)),
                  to_tradeCount = int (length (tradesBy w trades))\<rparr>
       else None)
   \<and> (list_all (marketHasTime sn) (tradesBy w trades)
        \<and> sorted (map (marketTimeOf sn) (tradesBy w trades))
        \<and> tradesBy w trades \<noteq> [] \<longrightarrow>
       ToNumber sn (nm_timestamp (hd (tradesBy w trades)))
         = Num (Min (marketTimeOf sn ` set (tradesBy w trades))))
   \<and> (map_of m w = Some d \<and> nm_proxyWallet t = Some w \<and> w \<noteq> [] \<longrightarrow>
       map_of (traderOrderStep m t) w =
         Some (d\<lparr>to_totalVolume := jsadd (to_totalVolume d) (nm_usdcSize t),
                 to_tradeCount := to_tradeCount d + 1\<rparr>))
   \<and> (list_all (marketHasTime sn) raw \<and> w \<noteq> [] \<and> tradesBy w raw \<noteq> [] \<longrightarrow>
       (\<exists>tbl r. firstTraders sn raw = Some tbl \<and> map_of tbl w = Some r
          \<and> ToNumber sn (nm_timestamp (firstTrade r))
              = Num (Min (marketTimeOf sn ` set (tradesBy w raw)))
          \<and> to_tradeCount r = int (length (tradesBy w raw))))
   \<and> map_option (\<lambda>e. (fj_timestamp e, fj_volume e)) (map_of (traderFirstTrades ltrades) w) =
      (if w \<noteq> [] \<and> ownedBy w ltrades \<noteq> []
       then Some (n_timestamp (hd (ownedBy w ltrades)),
                  jsSum (map n_usdcSize (ownedBy w ltrades)))
       else None)
   \<and> (list_all (hasTime sn) (ownedBy w ltrades)
        \<and> sorted (map (timeOf sn) (ownedBy w ltrades))
        \<and> ownedBy w ltrades \<noteq> [] \<longrightarrow>
       ToNumber sn (n_timestamp (hd (ownedBy w ltrades)))
         = Num (Min (timeOf sn ` set (ownedBy w ltrades))))
   \<and> (map_of lm w = Some e \<and> n_owner lt = Some w \<and> w \<noteq> [] \<longrightarrow>
       map_of (firstTradeStep lm lt) w
         = Some (e\<lparr>fj_volume := jsadd (fj_volume e) (n_usdcSize lt)\<rparr>))
   \<and> (list_all (hasTime sn) lraw \<and> w \<noteq> [] \<and> ownedBy w lraw \<noteq> [] \<longrightarrow>
       (\<exists>srt r. jsSortBy (timestampCmp sn) lraw = Some srt
          \<and> map_of (traderFirstTrades srt) w = Some r
          \<and> ToNumber sn (fj_timestamp r) = Num (Min (timeOf sn ` set (ownedBy w lraw)))))
   \<and> map fst (traderOrderOf trades) = walletsSeen trades
   \<and> map fst (traderFirstTrades ltrades) = ownersSeen ltrades
   \<and> map (\<lambda>x. fj_position (snd x)) (traderFirstTrades ltrades)
       = map (\<lambda>i. int i + 1) [0..<length (ownersSeen ltrades)]"
  using traderOrderOf_lookup [of trades w] tradesBy_ascending_min [of sn w trades]
    traderOrderStep_later [of m w d t] firstTraders_min [of sn raw w]
    traderFirstTrades_lookup [of ltrades w] ownedBy_ascending_min [of sn w ltrades]
    firstTradeStep_later [of lm w e lt] leaderFirst_min [of sn lraw w]
    traderOrderOf_keys [of trades] traderFirstTrades_keys [of ltrades]
    traderFirstTrades_positions [of ltrades]
  by blast

text \<open>
  Two trades of \<open>0xaaa\<close> at 100 and 150 with volumes 10 and 5, one of \<open>0xbbb\<close> at 120 with
  volume 3 and one without wallet: the loop keeps a record for \<open>0xaaa\<close> and one for
  \<open>0xbbb\<close>, the second trader it meets, with the trade at 120, volume 3 and count 1; one
  more trade of \<open>0xbbb\<close> at 200 changes only volume and count; and the same records come
  from the trades in reverse order, which the script sorts.
\<close>

theorem first_touch_witness:
  "map_of (traderOrderOf marketExample) ''0xbbb'' =
       Some \<lparr>firstTrade = mkMarketTrade (Some ''0xbbb'') 120 ''SELL'' (1 / 4) 3,
             to_totalVolume = Num 3, to_tradeCount = 1\<rparr>
   \<and> map_of (traderOrderOf marketExample) ''0xaaa'' =
       Some \<lparr>firstTrade = mkMarketTrade (Some ''0xaaa'') 100 ''BUY'' (1 / 2) 10,
             to_totalVolume = Num 15, to_tradeCount = 2\<rparr>
   \<and> map fst (traderOrderOf marketExample) = [''0xaaa'', ''0xbbb'']
   \<and> walletsSeen marketExample = [''0xaaa'', ''0xbbb'']
   \<and> map (\<lambda>x. (fst x, fj_position (snd x))) (traderFirstTrades leaderExample)
       = [(''0xaaa'', 1), (''0xbbb'', 2)]
   \<and> Min (marketTimeOf noNumber ` set (tradesBy ''0xbbb'' marketExample)) = 120
   \<and> Min (marketTimeOf noNumber ` set (tradesBy ''0xaaa'' marketExample)) = 100
   \<and> map_of (traderOrderStep (traderOrderOf marketExample)
               (mkMarketTrade (Some ''0xbbb'') 200 ''BUY'' (1 / 5) 4)) ''0xbbb'' =
       Some \<lparr>firstTrade = mkMarketTrade (Some ''0xbbb'') 120 ''SELL'' (1 / 4) 3,
             to_totalVolume = Num 7, to_tradeCount = 2\<rparr>
   \<and> map_option (\<lambda>tbl. map_of tbl ''0xbbb'') (firstTraders noNumber (rev marketExample)) =
       Some (Some \<lparr>firstTrade = mkMarketTrade (Some ''0xbbb'') 120 ''SELL'' (1 / 4) 3,
                   to_totalVolume = Num 3, to_tradeCount = 1\<rparr>)
   \<and> map_of (traderFirstTrades leaderExample) ''0xbbb'' =
       Some \<lparr>fj_timestamp = JNumber (Num 120), fj_volume = Num 3, fj_position = 2\<rparr>
   \<and> map_of (traderFirstTrades leaderExample) ''0xaaa'' =
       Some \<lparr>fj_timestamp = JNumber (Num 100), fj_volume = Num 15, fj_position = 1\<rparr>
   \<and> Min (timeOf noNumber ` set (ownedBy ''0xbbb'' leaderExample)) = 120
   \<and> map_of (firstTradeStep (traderFirstTrades leaderExample)
               (mkLeaderTrade (Some ''0xbbb'') 200 4)) ''0xbbb'' =
       Some \<lparr>fj_timestamp = JNumber (Num 120), fj_volume = Num 7, fj_position = 2\<rparr>
   \<and> map_option (\<lambda>srt. map_of (traderFirstTrades srt) ''0xbbb'')
        (jsSortBy (timestampCmp noNumber) (rev leaderExample)) =
       Some (Some \<lparr>fj_timestamp = JNumber (Num 120), fj_volume = Num 3, fj_position = 2\<rparr>)
   \<and> Min (marketTimeOf noNumber ` set (tradesBy ''0xbbb'' (rev marketExample))) = 120
   \<and> Min (timeOf noNumber ` set (ownedBy ''0xbbb'' (rev leaderExample))) = 120"
proof -
  let ?d = "\<lparr>firstTrade = mkMarketTrade (Some ''0xbbb'') 120 ''SELL'' (1 / 4) 3,
             to_totalVolume = Num 3, to_tradeCount = 1\<rparr>"
  let ?t = "mkMarketTrade (Some ''0xbbb'') 200 ''BUY'' (1 / 5) 4"
  let ?e = "\<lparr>fj_timestamp = JNumber (Num 120), fj_volume = Num 3, fj_position = 2\<rparr>"
  let ?lt = "mkLeaderTrade (Some ''0xbbb'') 200 4"
  note ev = marketExample_def mkMarketTrade_def leaderExample_def mkLeaderTrade_def
    traderOrderOf_def traderOrderStep_def traderFirstTrades_def firstTradeStep_def
    falsy_def map_get_def map_set_def Let_def
  have h1: "list_all (marketHasTime noNumber) marketExample"
    by (simp add: marketExample_def mkMarketTrade_def marketHasTime_def)
  have h2: "list_all (hasTime noNumber) leaderExample"
    by (simp add: leaderExample_def mkLeaderTrade_def hasTime_def)
  have a1: "list_all (marketHasTime noNumber) (tradesBy ''0xbbb'' marketExample)"
    "sorted (map (marketTimeOf noNumber) (tradesBy ''0xbbb'' marketExample))"
    by (simp_all add: tradesBy_def marketExample_def mkMarketTrade_def marketHasTime_def
        marketTimeOf_def)
  have a2: "list_all (hasTime noNumber) (ownedBy ''0xbbb'' leaderExample)"
    "sorted (map (timeOf noNumber) (ownedBy ''0xbbb'' leaderExample))"
    by (simp_all add: ownedBy_def leaderExample_def mkLeaderTrade_def hasTime_def timeOf_def)
  have b1: "list_all (marketHasTime noNumber) (tradesBy ''0xaaa'' marketExample)"
    "sorted (map (marketTimeOf noNumber) (tradesBy ''0xaaa'' marketExample))"
    "tradesBy ''0xaaa'' marketExample \<noteq> []"
    "ToNumber noNumber (nm_timestamp (hd (tradesBy ''0xaaa'' marketExample))) = Num 100"
    by (simp_all add: tradesBy_def marketExample_def mkMarketTrade_def marketHasTime_def
        marketTimeOf_def)
  have l1: "map_of (traderOrderOf marketExample) ''0xbbb'' = Some ?d" by (simp add: ev)
  have l1a: "map_of (traderOrderOf marketExample) ''0xaaa'' =
       Some \<lparr>firstTrade = mkMarketTrade (Some ''0xaaa'') 100 ''BUY'' (1 / 2) 10,
             to_totalVolume = Num 15, to_tradeCount = 2\<rparr>"
    by (simp add: ev)
  have k1: "map fst (traderOrderOf marketExample) = [''0xaaa'', ''0xbbb'']" by (simp add: ev)
  have k3: "map (\<lambda>x. (fst x, fj_position (snd x))) (traderFirstTrades leaderExample)
       = [(''0xaaa'', 1), (''0xbbb'', 2)]"
    by (simp add: ev)
  have r1: "map_option (\<lambda>tbl. map_of tbl ''0xbbb'') (firstTraders noNumber (rev marketExample))
      = Some (Some ?d)"
    by (simp add: firstTraders_def marketTimestampCmp_def [abs_def] jsSortBy_sub ev)
  have w1: "nm_proxyWallet ?t = Some ''0xbbb''" by (simp add: mkMarketTrade_def)
  have l2: "map_of (traderFirstTrades leaderExample) ''0xbbb'' = Some ?e" by (simp add: ev)
  have l2a: "map_of (traderFirstTrades leaderExample) ''0xaaa'' =
       Some \<lparr>fj_timestamp = JNumber (Num 100), fj_volume = Num 15, fj_position = 1\<rparr>"
    by (simp add: ev)
  have r2: "map_option (\<lambda>srt. map_of (traderFirstTrades srt) ''0xbbb'')
        (jsSortBy (timestampCmp noNumber) (rev leaderExample)) = Some (Some ?e)"
    by (simp add: timestampCmp_def [abs_def] jsSortBy_sub ev)
  have w2: "n_owner ?lt = Some ''0xbbb''" by (simp add: mkLeaderTrade_def)
  have n1: "tradesBy ''0xbbb'' marketExample \<noteq> []"
    by (simp add: tradesBy_def marketExample_def mkMarketTrade_def)
  have n2: "ownedBy ''0xbbb'' leaderExample \<noteq> []"
    by (simp add: ownedBy_def leaderExample_def mkLeaderTrade_def)
  have hd1: "ToNumber noNumber (nm_timestamp (hd (tradesBy ''0xbbb'' marketExample))) = Num 120"
    by (simp add: tradesBy_def marketExample_def mkMarketTrade_def)
  have hd2: "ToNumber noNumber (n_timestamp (hd (ownedBy ''0xbbb'' leaderExample))) = Num 120"
    by (simp add: ownedBy_def leaderExample_def mkLeaderTrade_def)
  note ft = first_touch [of marketExample "''0xbbb''" noNumber "traderOrderOf marketExample"
      ?d ?t "rev marketExample" leaderExample "traderFirstTrades leaderExample" ?e ?lt
      "rev leaderExample"]
  note ft2 = ft [THEN conjunct2, THEN conjunct1]
  note ft3 = ft [THEN conjunct2, THEN conjunct2, THEN conjunct1]
  note ft4 = ft [THEN conjunct2, THEN conjunct2, THEN conjunct2, THEN conjunct1]
  note ft6 = ft [THEN conjunct2, THEN conjunct2, THEN conjunct2, THEN conjunct2, THEN conjunct2, THEN conjunct1]
  note ft7 = ft [THEN conjunct2, THEN conjunct2, THEN conjunct2, THEN conjunct2, THEN conjunct2, THEN conjunct2, THEN conjunct1]
  note ft8 = ft [THEN conjunct2, THEN conjunct2, THEN conjunct2, THEN conjunct2, THEN conjunct2, THEN conjunct2, THEN conjunct2, THEN conjunct1]
  note ft9 = ft [THEN conjunct2, THEN conjunct2, THEN conjunct2, THEN conjunct2, THEN conjunct2, THEN conjunct2, THEN conjunct2, THEN conjunct2, THEN conjunct1]
  have k2: "walletsSeen marketExample = [''0xaaa'', ''0xbbb'']"
    using ft9 k1 by simp
  have m1: "Min (marketTimeOf noNumber ` set (tradesBy ''0xbbb'' marketExample)) = 120"
    using ft2 a1 n1 hd1 by simp
  have m2: "Min (timeOf noNumber ` set (ownedBy ''0xbbb'' leaderExample)) = 120"
    using ft6 a2 n2 hd2 by simp
  have m0: "Min (marketTimeOf noNumber ` set (tradesBy ''0xaaa'' marketExample)) = 100"
    using first_touch [of marketExample "''0xaaa''" noNumber "[]" ?d ?t "[]" "[]" "[]" ?e ?lt "[]",
        THEN conjunct2, THEN conjunct1]
      b1 by simp
  have s1: "map_of (traderOrderStep (traderOrderOf marketExample) ?t) ''0xbbb'' =
       Some \<lparr>firstTrade = mkMarketTrade (Some ''0xbbb'') 120 ''SELL'' (1 / 4) 3,
             to_totalVolume = Num 7, to_tradeCount = 2\<rparr>"
    using ft3 l1 w1 by (simp add: mkMarketTrade_def)
  have s2: "map_of (firstTradeStep (traderFirstTrades leaderExample) ?lt) ''0xbbb'' =
       Some \<lparr>fj_timestamp = JNumber (Num 120), fj_volume = Num 7, fj_position = 2\<rparr>"
    using ft7 l2 w2 by (simp add: mkLeaderTrade_def)
  have h1r: "list_all (marketHasTime noNumber) (rev marketExample)"
    using h1 by (simp add: list_all_iff)
  have n1r: "tradesBy ''0xbbb'' (rev marketExample) \<noteq> []"
    by (simp add: tradesBy_def marketExample_def mkMarketTrade_def)
  obtain tbl r where t1: "firstTraders noNumber (rev marketExample) = Some tbl"
    and t2: "map_of tbl ''0xbbb'' = Some r"
    and t3: "ToNumber noNumber (nm_timestamp (firstTrade r))
        = Num (Min (marketTimeOf noNumber ` set (tradesBy ''0xbbb'' (rev marketExample))))"
    using ft4 h1r n1r by auto
  have "r = ?d" using r1 t1 t2 by simp
  then have m1r: "Min (marketTimeOf noNumber ` set (tradesBy ''0xbbb'' (rev marketExample))) = 120"
    using t3 by (simp add: mkMarketTrade_def)
  have h2r: "list_all (hasTime noNumber) (rev leaderExample)"
    using h2 by (simp add: list_all_iff)
  have n2r: "ownedBy ''0xbbb'' (rev leaderExample) \<noteq> []"
    by (simp add: ownedBy_def leaderExample_def mkLeaderTrade_def)
  obtain srt q where q1: "jsSortBy (timestampCmp noNumber) (rev leaderExample) = Some srt"
    and q2: "map_of (traderFirstTrades srt) ''0xbbb'' = Some q"
    and q3: "ToNumber noNumber (fj_timestamp q)
        = Num (Min (timeOf noNumber ` set (ownedBy ''0xbbb'' (rev leaderExample))))"
    using ft8 h2r n2r by auto
  have "q = ?e" using r2 q1 q2 by simp
  then have m2r: "Min (timeOf noNumber ` set (ownedBy ''0xbbb'' (rev leaderExample))) = 120"
    using q3 by simp
  show ?thesis using l1 l1a k1 k2 k3 m0 m1 s1 r1 l2 l2a m2 s2 r2 m1r m2r by blast
qed

section \<open>The normaliser\<close>

lemma lowerChar_not_upper: "\<not> isUpper (lowerChar c)"
proof (cases c)
  case (Char b0 b1 b2 b3 b4 b5 b6 b7)
  show ?thesis
    unfolding Char
    by (cases b0; cases b1; cases b2; cases b3; cases b4; cases b5; cases b6; cases b7)
      (simp_all add: isUpper_def)
qed


lemma toLowerCase_idem: "toLowerCase (toLowerCase s) = toLowerCase s"
proof -
  have "lowerChar (lowerChar c) = lowerChar c" for c
    using lowerChar_not_upper [of c] by (cases "lowerChar c") simp
  then show ?thesis by (simp add: toLowerCase_def)
qed

lemma lowerChar_code:
  "of_char (lowerChar c) = (if isUpper c then of_char c + 32 else (of_char c :: nat))"
proof (cases c)
  case (Char b0 b1 b2 b3 b4 b5 b6 b7)
  show ?thesis
    unfolding Char
    by (cases b0; cases b1; cases b2; cases b3; cases b4; cases b5; cases b6; cases b7)
      (simp_all add: isUpper_def)
qed





































section \<open>The input arrays are left alone\<close>

lemma addrsOf_update:
  "addrsOf (AList.update c cm tbc) \<subseteq> snd ` set cm \<union> addrsOf tbc"
proof
  fix a
  assume "a \<in> addrsOf (AList.update c cm tbc)"
  then obtain c' cm' k where in1: "(c', cm') \<in> set (AList.update c cm tbc)" and in2: "(k, a) \<in> set cm'"
    by (auto simp: addrsOf_def)
  have "(c', cm') = (c, cm) \<or> (c', cm') \<in> set tbc"
    using in1 set_update_subset [of c cm tbc] by blast
  then show "a \<in> snd ` set cm \<union> addrsOf tbc"
  proof
    assume "(c', cm') = (c, cm)"
    then show ?thesis using in2 by force
  next
    assume "(c', cm') \<in> set tbc"
    then show ?thesis using in2 by (auto simp: addrsOf_def)
  qed
qed

lemma addrsOf_lookup:
  assumes "map_of tbc c = Some cm"
  shows "snd ` set cm \<subseteq> addrsOf tbc"
proof
  fix a
  assume "a \<in> snd ` set cm"
  then obtain k where "(k, a) \<in> set cm" by force
  moreover have "(c, cm) \<in> set tbc" using assms by (rule map_of_SomeD)
  ultimately show "a \<in> addrsOf tbc" by (auto simp: addrsOf_def)
qed

lemma groupTradeH_push:
  assumes "storeInv s0 (addrsOf (fst st)) (snd st)"
  shows "groupTradeH addr st trade = Some (pushTradeH addr st trade)"
    and "storeInv s0 (addrsOf (fst (pushTradeH addr st trade))) (snd (pushTradeH addr st trade))"
proof -
  define c where "c = conditionId trade"
  define tbc where "tbc = fst st"
  define s where "s = snd st"
  define cm where "cm = (case map_of tbc c of None \<Rightarrow> [] | Some cm \<Rightarrow> cm)"
  have inv: "length s0 \<le> length s" "take (length s0) s = s0"
    "\<And>a. a \<in> addrsOf tbc \<Longrightarrow> length s0 \<le> a \<and> a < length s \<and> s ! a \<noteq> []"
    using assms by (auto simp: storeInv_def tbc_def s_def)
  have cm_sub: "snd ` set cm \<subseteq> addrsOf tbc"
  proof (cases "map_of tbc c")
    case None
    then show ?thesis by (simp add: cm_def)
  next
    case (Some x)
    then show ?thesis using addrsOf_lookup [OF Some] by (simp add: cm_def)
  qed
  show "groupTradeH addr st trade = Some (pushTradeH addr st trade)"
  proof (cases "map_of cm addr")
    case None
    then show ?thesis
      unfolding groupTradeH_def pushTradeH_def Let_def
      by (auto simp: map_has_def map_get_def map_set_def update_conv' allocArray_def
          pushArray_def cm_def c_def tbc_def s_def split: option.splits)
  next
    case (Some a)
    then have "a \<in> snd ` set cm" by (metis map_of_SomeD image_eqI snd_conv)
    then have "a < length s" using cm_sub inv(3) by blast
    then show ?thesis
      using Some
      unfolding groupTradeH_def pushTradeH_def Let_def
      by (auto simp: map_has_def map_get_def map_set_def update_conv' allocArray_def
          pushArray_def cm_def c_def tbc_def s_def split: option.splits)
  qed
  show "storeInv s0 (addrsOf (fst (pushTradeH addr st trade))) (snd (pushTradeH addr st trade))"
  proof (cases "map_of cm addr")
    case None
    have r: "pushTradeH addr st trade =
        (AList.update c (AList.update addr (length s) cm) tbc, s @ [[trade]])"
      using None by (simp add: pushTradeH_def Let_def cm_def c_def tbc_def s_def)
    have sub: "addrsOf (AList.update c (AList.update addr (length s) cm) tbc)
        \<subseteq> insert (length s) (addrsOf tbc)"
      using addrsOf_update [of c "AList.update addr (length s) cm" tbc]
        set_update_subset [of addr "length s" cm] cm_sub by force
    have "length s0 \<le> a \<and> a < length (s @ [[trade]]) \<and> (s @ [[trade]]) ! a \<noteq> []"
      if "a \<in> insert (length s) (addrsOf tbc)" for a
    proof (cases "a = length s")
      case True
      then show ?thesis using inv(1) by simp
    next
      case False
      then have "a \<in> addrsOf tbc" using that by simp
      then show ?thesis using inv(3) [of a] by (simp add: nth_append)
    qed
    then have el: "\<forall>a\<in>addrsOf (AList.update c (AList.update addr (length s) cm) tbc).
        length s0 \<le> a \<and> a < length (s @ [[trade]]) \<and> (s @ [[trade]]) ! a \<noteq> []"
      using sub by blast
    have l: "length s0 \<le> length (s @ [[trade]])" using inv(1) by simp
    have t: "take (length s0) (s @ [[trade]]) = s0" using inv(1,2) by simp
    show ?thesis
      unfolding r storeInv_def fst_conv snd_conv using l t el by blast
  next
    case (Some a)
    have r: "pushTradeH addr st trade = (AList.update c cm tbc, s[a := s ! a @ [trade]])"
      using Some by (simp add: pushTradeH_def Let_def cm_def c_def tbc_def s_def)
    have "a \<in> snd ` set cm" using Some by (metis map_of_SomeD image_eqI snd_conv)
    then have a: "length s0 \<le> a" "a < length s" using cm_sub inv(3) by blast+
    have sub: "addrsOf (AList.update c cm tbc) \<subseteq> addrsOf tbc"
      using addrsOf_update [of c cm tbc] cm_sub by blast
    have "length s0 \<le> b \<and> b < length (s[a := s ! a @ [trade]]) \<and> s[a := s ! a @ [trade]] ! b \<noteq> []"
      if "b \<in> addrsOf tbc" for b
      using inv(3) [OF that] a by (cases "b = a") simp_all
    then have el: "\<forall>b\<in>addrsOf (AList.update c cm tbc).
        length s0 \<le> b \<and> b < length (s[a := s ! a @ [trade]]) \<and> s[a := s ! a @ [trade]] ! b \<noteq> []"
      using sub by blast
    have t: "take (length s0) (s[a := s ! a @ [trade]]) = s0"
      using a inv(2) by simp
    have l: "length s0 \<le> length (s[a := s ! a @ [trade]])" using inv(1) by simp
    show ?thesis
      unfolding r storeInv_def fst_conv snd_conv using l t el by blast
  qed
qed

lemma forOfArray_forOf:
  assumes body: "\<And>st t. I st \<Longrightarrow> \<exists>st'. body st t = Some st' \<and> I st'"
    and arr: "\<And>st. I st \<Longrightarrow> r < length (snd st) \<and> snd st ! r = xs"
    and inv: "I st"
  shows "forOfArray body r i st = forOf body st (drop i xs)"
  using inv
proof (induction "length xs - i" arbitrary: i st)
  case 0
  then have "\<not> i < length xs" by simp
  then show ?case
    using arr [OF "0.prems"] by (subst forOfArray.simps) simp
next
  case (Suc n)
  then have i: "i < length xs" by simp
  obtain st' where st': "body st (xs ! i) = Some st'" and inv': "I st'"
    using body [OF Suc.prems] by blast
  have n: "n = length xs - (i + 1)" using Suc.hyps(2) by simp
  have rec: "forOfArray body r (i + 1) st' = forOf body st' (drop (i + 1) xs)"
    by (rule Suc.hyps(1) [OF n inv'])
  have "forOfArray body r i st = forOfArray body r (i + 1) st'"
    using arr [OF Suc.prems] i st' by (subst forOfArray.simps) simp
  moreover have "forOf body st (drop i xs) = forOf body st' (drop (i + 1) xs)"
    using i st' by (simp add: Cons_nth_drop_Suc [symmetric])
  ultimately show ?case using rec by simp
qed

lemma forOf_preserves:
  assumes "I s" and "\<And>s x. I s \<Longrightarrow> \<exists>s'. body s x = Some s' \<and> I s'"
  shows "\<exists>s'. forOf body s xs = Some s' \<and> I s'"
  using assms(1)
proof (induction xs arbitrary: s)
  case Nil
  then show ?case by simp
next
  case (Cons x xs)
  obtain s' where "body s x = Some s'" "I s'" using assms(2) [OF Cons.prems] by blast
  then show ?case using Cons.IH [of s'] by simp
qed

lemma storeInv_nth:
  assumes "storeInv s0 A s" and "r < length s0"
  shows "r < length s \<and> s ! r = s0 ! r"
proof -
  have t: "take (length s0) s = s0" and l: "length s0 \<le> length s"
    using assms(1) by (simp_all add: storeInv_def)
  have "take (length s0) s ! r = s ! r" using assms(2) by simp
  then have "s ! r = s0 ! r" by (simp only: t)
  then show ?thesis using l assms(2) by simp
qed

lemma groupTraderH_inv:
  assumes "storeInv s0 (addrsOf (fst st)) (snd st)" and "tr_trades t < length s0"
  shows "\<exists>st'. groupTraderH st t = Some st' \<and> storeInv s0 (addrsOf (fst st')) (snd st')"
proof -
  let ?I = "\<lambda>st. storeInv s0 (addrsOf (fst st)) (snd st)"
  have body: "\<exists>st'. groupTradeH (tr_address t) st x = Some st' \<and> ?I st'" if "?I st" for st x
    using groupTradeH_push [OF that] by blast
  have arr: "tr_trades t < length (snd st) \<and> snd st ! tr_trades t = s0 ! tr_trades t"
    if "?I st" for st
    by (rule storeInv_nth [OF that assms(2)])
  have "groupTraderH st t = forOf (groupTradeH (tr_address t)) st (drop 0 (s0 ! tr_trades t))"
    unfolding groupTraderH_def
    by (rule forOfArray_forOf [where I = ?I, OF body arr assms(1)])
  then show ?thesis
    using forOf_preserves [where I = ?I, OF assms(1) body] by simp
qed

lemma groupAllH_inv:
  assumes "\<forall>t\<in>set traderData. tr_trades t < length s0"
  shows "\<exists>st. groupAllH traderData s0 = Some st \<and> storeInv s0 (addrsOf (fst st)) (snd st)"
proof -
  have gen: "\<exists>st'. forOf groupTraderH st ts = Some st' \<and> storeInv s0 (addrsOf (fst st')) (snd st')"
    if "storeInv s0 (addrsOf (fst st)) (snd st)" "set ts \<subseteq> set traderData" for st ts
    using that
  proof (induction ts arbitrary: st)
    case Nil
    then show ?case by simp
  next
    case (Cons t ts)
    have "tr_trades t < length s0" using Cons.prems(2) assms by auto
    then obtain st' where "groupTraderH st t = Some st'"
      "storeInv s0 (addrsOf (fst st')) (snd st')"
      using groupTraderH_inv [OF Cons.prems(1)] by blast
    then show ?case using Cons.IH [of st'] Cons.prems(2) by simp
  qed
  have "storeInv s0 (addrsOf (fst ([], s0))) (snd ([], s0))"
    by (simp add: storeInv_def addrsOf_def)
  then show ?thesis unfolding groupAllH_def using gen by blast
qed

lemma firstTradeOfH_inv:
  assumes "storeInv s0 A (snd st)" and "snd entry \<in> A"
  shows "\<exists>st'. firstTradeOfH st entry = Some st' \<and> storeInv s0 A (snd st')"
proof -
  define s where "s = snd st"
  define a where "a = snd entry"
  define s' where "s' = s[a := jsSort (\<lambda>x y. timestamp x - timestamp y) (s ! a)]"
  have inv: "length s0 \<le> length s" "take (length s0) s = s0"
    "\<And>b. b \<in> A \<Longrightarrow> length s0 \<le> b \<and> b < length s \<and> s ! b \<noteq> []"
    using assms(1) by (auto simp: storeInv_def s_def)
  have a: "length s0 \<le> a" "a < length s" "s ! a \<noteq> []"
    using inv(3) [of a] assms(2) by (simp_all add: a_def)
  have srt: "sortArray a s = Some s'" using a(2) by (simp add: sortArray_def s'_def)
  have "length (s' ! a) = length (s ! a)" using a(2) by (simp add: s'_def length_jsSort)
  then have ne: "s' ! a \<noteq> []" using a(3) by auto
  then obtain f fs where f: "s' ! a = f # fs" by (cases "s' ! a") auto
  have el: "\<forall>b\<in>A. length s0 \<le> b \<and> b < length s' \<and> s' ! b \<noteq> []"
  proof
    fix b assume b: "b \<in> A"
    show "length s0 \<le> b \<and> b < length s' \<and> s' ! b \<noteq> []"
    proof (cases "b = a")
      case True
      then show ?thesis using a ne by (simp add: s'_def)
    next
      case False
      then show ?thesis using inv(3) [OF b] by (simp add: s'_def)
    qed
  qed
  have t: "take (length s0) s' = s0" using a(1) inv(2) by (simp add: s'_def)
  have l: "length s0 \<le> length s'" using inv(1) by (simp add: s'_def)
  have i': "storeInv s0 A s'" unfolding storeInv_def using l t el by blast
  have "\<exists>acc. firstTradeOfH st entry = Some (acc, s')"
    using srt f by (simp add: firstTradeOfH_def s_def [symmetric] a_def [symmetric])
  then show ?thesis using i' by auto
qed

lemma forOf_firstTradeOfH:
  assumes "storeInv s0 A (snd st)" and "snd ` set cm \<subseteq> A"
  shows "\<exists>st'. forOf firstTradeOfH st cm = Some st' \<and> storeInv s0 A (snd st')"
  using assms
proof (induction cm arbitrary: st)
  case Nil
  then show ?case by simp
next
  case (Cons e cm)
  have "snd e \<in> A" using Cons.prems(2) by auto
  then obtain st' where "firstTradeOfH st e = Some st'" "storeInv s0 A (snd st')"
    using firstTradeOfH_inv [OF Cons.prems(1)] by blast
  then show ?case using Cons.IH [of st'] Cons.prems(2) by simp
qed

lemma matchConditionH_inv:
  assumes "storeInv s0 A (snd st)" and "snd ` set (snd entry) \<subseteq> A"
  shows "\<exists>st'. matchConditionH w st entry = Some st' \<and> storeInv s0 A (snd st')"
proof (cases "length (snd entry) < 2")
  case True
  then show ?thesis using assms(1) by (simp add: matchConditionH_def Let_def)
next
  case False
  then obtain k a rest where cm: "snd entry = (k, a) # rest" by (cases "snd entry") auto
  have "a \<in> A" using assms(2) cm by auto
  then have a: "a < length (snd st)" "snd st ! a \<noteq> []"
    using assms(1) by (auto simp: storeInv_def)
  then obtain t ts where t: "snd st ! a = t # ts" by (cases "snd st ! a") auto
  have get: "map_get (snd entry) (hd (map fst (snd entry))) = Some a"
    by (simp add: cm map_get_def)
  have rd: "readArray a (snd st) = Some (t # ts)" using a(1) t by (simp add: readArray_def)
  have "storeInv s0 A (snd ([] :: TraderFirst list, snd st))" using assms(1) by simp
  then obtain firsts where fo: "forOf firstTradeOfH ([], snd st) (snd entry) = Some firsts"
    and fi: "storeInv s0 A (snd firsts)"
    using forOf_firstTradeOfH [OF _ assms(2)] by blast
  show ?thesis
  proof (cases "length (pairLoop w (fst firsts)) > 0")
    case True
    then show ?thesis
      using False fi
      unfolding matchConditionH_def Let_def
      by (simp only: get rd fo if_False if_True bind.bind_lunit list.case) auto
  next
    case none: False
    then show ?thesis
      using False fi
      unfolding matchConditionH_def Let_def
      by (simp only: get rd fo if_False if_True bind.bind_lunit list.case) auto
  qed
qed

lemma forOf_matchConditionH:
  assumes "storeInv s0 A (snd st)" and "\<forall>e\<in>set tbc. snd ` set (snd e) \<subseteq> A"
  shows "\<exists>st'. forOf (matchConditionH w) st tbc = Some st' \<and> storeInv s0 A (snd st')"
  using assms
proof (induction tbc arbitrary: st)
  case Nil
  then show ?case by simp
next
  case (Cons e tbc)
  have "snd ` set (snd e) \<subseteq> A" using Cons.prems(2) by simp
  then obtain st' where "matchConditionH w st e = Some st'" "storeInv s0 A (snd st')"
    using matchConditionH_inv [OF Cons.prems(1)] by blast
  then show ?case using Cons.IH [of st'] Cons.prems(2) by simp
qed

lemma findMatchingTradesH_frame:
  assumes "\<forall>t\<in>set traderData. tr_trades t < length s0"
  shows "\<exists>ms s. findMatchingTradesH h traderData s0 = Some (ms, s) \<and> take (length s0) s = s0"
proof -
  obtain g where g: "groupAllH traderData s0 = Some g"
    and gi: "storeInv s0 (addrsOf (fst g)) (snd g)"
    using groupAllH_inv [OF assms] by blast
  have sub: "\<forall>e\<in>set (fst g). snd ` set (snd e) \<subseteq> addrsOf (fst g)"
    by (force simp: addrsOf_def)
  have "storeInv s0 (addrsOf (fst g)) (snd ([] :: MatchedTrade list, snd g))" using gi by simp
  then obtain m where m: "forOf (matchConditionH (h * 3600)) ([], snd g) (fst g) = Some m"
    and mi: "storeInv s0 (addrsOf (fst g)) (snd m)"
    using forOf_matchConditionH [OF _ sub] by blast
  have "findMatchingTradesH h traderData s0 = Some (jsSort matchedCmp (fst m), snd m)"
    by (simp add: findMatchingTradesH_def g m Let_def)
  moreover have "take (length s0) (snd m) = s0" using mi by (simp add: storeInv_def)
  ultimately show ?thesis by blast
qed

section \<open>The store matcher computes what the matcher on values computes\<close>

lemma map_of_absCm: "map_of (absCm s cm) k = map_option (\<lambda>a. s ! a) (map_of cm k)"
  by (induction cm) (auto simp: absCm_def)

lemma map_of_absTbc: "map_of (absTbc s tbc) c = map_option (absCm s) (map_of tbc c)"
  by (induction tbc) (auto simp: absTbc_def)

lemma absCm_update: "absCm s (AList.update k a cm) = AList.update k (s ! a) (absCm s cm)"
  by (induction cm) (auto simp: absCm_def)

lemma absTbc_update:
  "absTbc s (AList.update c cm tbc) = AList.update c (absCm s cm) (absTbc s tbc)"
  by (induction tbc) (auto simp: absTbc_def)

lemma absCm_cong:
  assumes "\<And>a. a \<in> snd ` set cm \<Longrightarrow> s' ! a = s ! a"
  shows "absCm s' cm = absCm s cm"
  using assms by (auto simp: absCm_def)

lemma absTbc_cong:
  assumes "\<And>a. a \<in> set (addrList tbc) \<Longrightarrow> s' ! a = s ! a"
  shows "absTbc s' tbc = absTbc s tbc"
proof -
  have "absCm s' (snd e) = absCm s (snd e)" if "e \<in> set tbc" for e
  proof (rule absCm_cong)
    fix a assume "a \<in> snd ` set (snd e)"
    then have "a \<in> set (addrList tbc)" using that by (auto simp: addrList_def)
    then show "s' ! a = s ! a" by (rule assms)
  qed
  then show ?thesis by (simp add: absTbc_def)
qed

lemma absCm_store_update:
  assumes "distinct (map fst cm)" and "distinct (map snd cm)" and "map_of cm k = Some a"
    and "a < length s"
  shows "absCm (s[a := v]) cm = AList.update k v (absCm s cm)"
  using assms
proof (induction cm)
  case Nil
  then show ?case by simp
next
  case (Cons e cm)
  show ?case
  proof (cases "fst e = k")
    case True
    then have ea: "snd e = a" using Cons.prems(3) by (cases e) auto
    have "a \<notin> snd ` set cm" using Cons.prems(2) ea by auto
    then have "absCm (s[a := v]) cm = absCm s cm"
      by (intro absCm_cong) (metis nth_list_update_neq)
    then show ?thesis using True ea Cons.prems(4) by (simp add: absCm_def)
  next
    case False
    then have look: "map_of cm k = Some a" using Cons.prems(3) by (cases e) auto
    then have "a \<in> snd ` set cm" by (metis map_of_SomeD image_eqI snd_conv)
    then have "snd e \<noteq> a" using Cons.prems(2) by auto
    moreover have "absCm (s[a := v]) cm = AList.update k v (absCm s cm)"
      by (rule Cons.IH) (use Cons.prems look in auto)
    ultimately show ?thesis using False by (simp add: absCm_def)
  qed
qed

lemma addrList_Cons: "addrList (e # tbc) = map snd (snd e) @ addrList tbc"
  by (simp add: addrList_def)

lemma addrList_lookup:
  assumes "map_of tbc c = Some cm"
  shows "set (map snd cm) \<subseteq> set (addrList tbc)"
proof -
  have "(c, cm) \<in> set tbc" using assms by (rule map_of_SomeD)
  then show ?thesis by (force simp: addrList_def)
qed

lemma absTbc_store_update:
  assumes "distinct (map fst tbc)" and "list_all (\<lambda>e. distinct (map fst (snd e))) tbc"
    and "distinct (addrList tbc)"
    and "map_of tbc c = Some cm" and "map_of cm k = Some a" and "a < length s"
  shows "absTbc (s[a := v]) tbc = AList.update c (AList.update k v (absCm s cm)) (absTbc s tbc)"
  using assms(1-4)
proof (induction tbc)
  case Nil
  then show ?case by simp
next
  case (Cons e tbc)
  have a_in: "a \<in> set (map snd cm)"
    using assms(5) by (metis map_of_SomeD image_eqI snd_conv set_map)
  show ?case
  proof (cases "fst e = c")
    case True
    then have ec: "snd e = cm" using Cons.prems(4) by (cases e) auto
    have d: "distinct (map fst cm)" "distinct (map snd cm)"
      using Cons.prems(2,3) ec by (simp_all add: addrList_Cons)
    have "a \<notin> set (addrList tbc)"
      using Cons.prems(3) a_in ec by (auto simp: addrList_Cons)
    then have rest: "absTbc (s[a := v]) tbc = absTbc s tbc"
      by (intro absTbc_cong) (metis nth_list_update_neq)
    have "absCm (s[a := v]) cm = AList.update k v (absCm s cm)"
      by (rule absCm_store_update [OF d assms(5,6)])
    then show ?thesis using True ec rest by (simp add: absTbc_def)
  next
    case False
    then have look: "map_of tbc c = Some cm" using Cons.prems(4) by (cases e) auto
    have "a \<in> set (addrList tbc)" using addrList_lookup [OF look] a_in by blast
    then have "a \<notin> snd ` set (snd e)"
      using Cons.prems(3) by (auto simp: addrList_Cons)
    then have hd: "absCm (s[a := v]) (snd e) = absCm s (snd e)"
      by (intro absCm_cong) (metis nth_list_update_neq)
    have "absTbc (s[a := v]) tbc
        = AList.update c (AList.update k v (absCm s cm)) (absTbc s tbc)"
      by (rule Cons.IH) (use Cons.prems look in \<open>auto simp: addrList_Cons\<close>)
    then show ?thesis using False hd by (simp add: absTbc_def)
  qed
qed

lemma addrList_update_new:
  assumes "map_of cm k = None"
    and "cm = (case map_of tbc c of None \<Rightarrow> [] | Some cm \<Rightarrow> cm)"
  shows "mset (addrList (AList.update c (AList.update k n cm) tbc)) = add_mset n (mset (addrList tbc))"
  using assms(2)
proof (induction tbc)
  case Nil
  then show ?case by (simp add: addrList_def)
next
  case (Cons e tbc)
  show ?case
  proof (cases "fst e = c")
    case True
    then have "snd e = cm" using Cons.prems by (cases e) auto
    then show ?thesis
      using True update_absent [OF assms(1), of n] by (cases e) (simp add: addrList_def)
  next
    case False
    then have "cm = (case map_of tbc c of None \<Rightarrow> [] | Some cm \<Rightarrow> cm)"
      using Cons.prems by (cases e) auto
    then have "mset (addrList (AList.update c (AList.update k n cm) tbc))
        = add_mset n (mset (addrList tbc))"
      by (rule Cons.IH)
    then show ?thesis using False by (cases e) (simp add: addrList_def)
  qed
qed

lemma tbcInv_iff:
  "tbcInv s tbc \<longleftrightarrow>
     distinct (map fst tbc) \<and> (\<forall>e\<in>set tbc. distinct (map fst (snd e)))
     \<and> distinct (addrList tbc) \<and> (\<forall>a\<in>set (addrList tbc). a < length s \<and> s ! a \<noteq> [])"
  by (simp add: tbcInv_def list_all_iff)

lemma pushTradeH_abs:
  assumes "tbcInv s tbc"
  shows "absTbc (snd (pushTradeH addr (tbc, s) t)) (fst (pushTradeH addr (tbc, s) t))
      = pushTrade addr (absTbc s tbc) t"
    and "tbcInv (snd (pushTradeH addr (tbc, s) t)) (fst (pushTradeH addr (tbc, s) t))"
proof -
  define c where "c = conditionId t"
  define cm where "cm = (case map_of tbc c of None \<Rightarrow> [] | Some cm \<Rightarrow> cm)"
  have inv: "distinct (map fst tbc)" "\<And>e. e \<in> set tbc \<Longrightarrow> distinct (map fst (snd e))"
    "distinct (addrList tbc)" "\<And>a. a \<in> set (addrList tbc) \<Longrightarrow> a < length s \<and> s ! a \<noteq> []"
    using assms unfolding tbcInv_iff by blast+
  have cmP: "(case map_of (absTbc s tbc) c of None \<Rightarrow> [] | Some cm \<Rightarrow> cm) = absCm s cm"
    by (simp add: map_of_absTbc cm_def absCm_def split: option.splits)
  have cm_d: "distinct (map fst cm)"
  proof (cases "map_of tbc c")
    case None
    then show ?thesis by (simp add: cm_def)
  next
    case (Some x)
    then have "(c, x) \<in> set tbc" by (rule map_of_SomeD)
    then show ?thesis using inv(2) Some by (force simp: cm_def)
  qed
  have cm_sub: "set (map snd cm) \<subseteq> set (addrList tbc)"
  proof (cases "map_of tbc c")
    case None
    then show ?thesis by (simp add: cm_def)
  next
    case (Some x)
    then show ?thesis using addrList_lookup [OF Some] by (simp add: cm_def)
  qed
  show "absTbc (snd (pushTradeH addr (tbc, s) t)) (fst (pushTradeH addr (tbc, s) t))
      = pushTrade addr (absTbc s tbc) t"
  proof (cases "map_of cm addr")
    case None
    have r: "pushTradeH addr (tbc, s) t =
        (AList.update c (AList.update addr (length s) cm) tbc, s @ [[t]])"
      using None by (simp add: pushTradeH_def Let_def cm_def c_def)
    have old: "(s @ [[t]]) ! a = s ! a" if "a \<in> set (addrList tbc)" for a
      using inv(4) [OF that] by (simp add: nth_append)
    have a1: "absTbc (s @ [[t]]) tbc = absTbc s tbc"
      by (rule absTbc_cong) (rule old)
    have a2: "absCm (s @ [[t]]) cm = absCm s cm"
      by (rule absCm_cong) (use cm_sub old in auto)
    have "map_of (absCm s cm) addr = None" using None by (simp add: map_of_absCm)
    then have p: "pushTrade addr (absTbc s tbc) t =
        AList.update c (AList.update addr [t] (absCm s cm)) (absTbc s tbc)"
      unfolding pushTrade_def Let_def c_def [symmetric] cmP by simp
    show ?thesis
      unfolding r p fst_conv snd_conv absTbc_update absCm_update a1 a2 by simp
  next
    case (Some a)
    have look: "map_of tbc c = Some cm"
      using Some by (cases "map_of tbc c") (auto simp: cm_def)
    have r: "pushTradeH addr (tbc, s) t = (tbc, s[a := s ! a @ [t]])"
      using Some look by (simp add: pushTradeH_def Let_def cm_def c_def update_triv)
    have "a \<in> set (map snd cm)" using Some by (metis map_of_SomeD image_eqI snd_conv set_map)
    then have a: "a < length s" using cm_sub inv(4) by blast
    have "map_of (absCm s cm) addr = Some (s ! a)" using Some by (simp add: map_of_absCm)
    then have p: "pushTrade addr (absTbc s tbc) t =
        AList.update c (AList.update addr (s ! a @ [t]) (absCm s cm)) (absTbc s tbc)"
      unfolding pushTrade_def Let_def c_def [symmetric] cmP by simp
    have "list_all (\<lambda>e. distinct (map fst (snd e))) tbc"
      using inv(2) by (simp add: list_all_iff)
    then show ?thesis
      unfolding r p fst_conv snd_conv
      by (rule absTbc_store_update [OF inv(1) _ inv(3) look Some a])
  qed
  show "tbcInv (snd (pushTradeH addr (tbc, s) t)) (fst (pushTradeH addr (tbc, s) t))"
  proof (cases "map_of cm addr")
    case None
    define tbc' where "tbc' = AList.update c (AList.update addr (length s) cm) tbc"
    have r: "pushTradeH addr (tbc, s) t = (tbc', s @ [[t]])"
      using None by (simp add: pushTradeH_def Let_def cm_def c_def tbc'_def)
    have ms: "mset (addrList tbc') = add_mset (length s) (mset (addrList tbc))"
      unfolding tbc'_def by (rule addrList_update_new [OF None cm_def])
    have fresh: "length s \<notin> set (addrList tbc)" using inv(4) by blast
    have st: "set (addrList tbc') = insert (length s) (set (addrList tbc))"
      using arg_cong [OF ms, of set_mset] by simp
    have "mset (addrList tbc') = mset (length s # addrList tbc)" using ms by simp
    then have "distinct (addrList tbc') = distinct (length s # addrList tbc)"
      by (rule mset_eq_imp_distinct_iff)
    then have d3: "distinct (addrList tbc')" using inv(3) fresh by simp
    have d1: "distinct (map fst tbc')" unfolding tbc'_def using inv(1) by (rule distinct_update)
    have d2: "distinct (map fst (snd e))" if "e \<in> set tbc'" for e
    proof -
      have "e = (c, AList.update addr (length s) cm) \<or> e \<in> set tbc"
        using that set_update_subset [of c "AList.update addr (length s) cm" tbc]
        unfolding tbc'_def by blast
      then show ?thesis
      proof
        assume "e = (c, AList.update addr (length s) cm)"
        then show ?thesis using cm_d by (simp add: distinct_update)
      next
        assume "e \<in> set tbc"
        then show ?thesis by (rule inv(2))
      qed
    qed
    have d4: "a < length (s @ [[t]]) \<and> (s @ [[t]]) ! a \<noteq> []" if "a \<in> set (addrList tbc')" for a
    proof (cases "a = length s")
      case True
      then show ?thesis by simp
    next
      case False
      then have "a \<in> set (addrList tbc)" using that st by simp
      then show ?thesis using inv(4) [of a] by (simp add: nth_append)
    qed
    show ?thesis unfolding r fst_conv snd_conv tbcInv_iff using d1 d2 d3 d4 by blast
  next
    case (Some a)
    have look: "map_of tbc c = Some cm"
      using Some by (cases "map_of tbc c") (auto simp: cm_def)
    have r: "pushTradeH addr (tbc, s) t = (tbc, s[a := s ! a @ [t]])"
      using Some look by (simp add: pushTradeH_def Let_def cm_def c_def update_triv)
    have d4: "b < length (s[a := s ! a @ [t]]) \<and> s[a := s ! a @ [t]] ! b \<noteq> []"
      if "b \<in> set (addrList tbc)" for b
      using inv(4) [OF that] by (cases "b = a") simp_all
    show ?thesis unfolding r fst_conv snd_conv tbcInv_iff using inv(1,2,3) d4 by blast
  qed
qed

lemma forOf_pushTradeH:
  assumes "storeInv s0 (addrsOf (fst st)) (snd st)" and "tbcInv (snd st) (fst st)"
  shows "\<exists>st'. forOf (groupTradeH addr) st xs = Some st'
      \<and> storeInv s0 (addrsOf (fst st')) (snd st') \<and> tbcInv (snd st') (fst st')
      \<and> absTbc (snd st') (fst st') = foldl (pushTrade addr) (absTbc (snd st) (fst st)) xs"
  using assms
proof (induction xs arbitrary: st)
  case Nil
  then show ?case by simp
next
  case (Cons x xs)
  define st1 where "st1 = pushTradeH addr st x"
  have g: "groupTradeH addr st x = Some st1"
    and i1: "storeInv s0 (addrsOf (fst st1)) (snd st1)"
    using groupTradeH_push [OF Cons.prems(1), of addr x] by (simp_all add: st1_def)
  have "tbcInv (snd st) (fst st)" by (rule Cons.prems(2))
  then have a: "absTbc (snd (pushTradeH addr (fst st, snd st) x)) (fst (pushTradeH addr (fst st, snd st) x))
      = pushTrade addr (absTbc (snd st) (fst st)) x"
    and t: "tbcInv (snd (pushTradeH addr (fst st, snd st) x)) (fst (pushTradeH addr (fst st, snd st) x))"
    by (rule pushTradeH_abs)+
  have a1: "absTbc (snd st1) (fst st1) = pushTrade addr (absTbc (snd st) (fst st)) x"
    using a by (simp add: st1_def)
  have t1: "tbcInv (snd st1) (fst st1)" using t by (simp add: st1_def)
  obtain st' where r: "forOf (groupTradeH addr) st1 xs = Some st'"
    and p: "storeInv s0 (addrsOf (fst st')) (snd st')" "tbcInv (snd st') (fst st')"
      "absTbc (snd st') (fst st') = foldl (pushTrade addr) (absTbc (snd st1) (fst st1)) xs"
    using Cons.IH [OF i1 t1] by blast
  have "forOf (groupTradeH addr) st (x # xs) = Some st'" using g r by simp
  moreover have "absTbc (snd st') (fst st') = foldl (pushTrade addr) (absTbc (snd st) (fst st)) (x # xs)"
    using p(3) a1 by simp
  ultimately show ?case using p(1,2) by blast
qed

lemma groupTraderH_abs:
  assumes "storeInv s0 (addrsOf (fst st)) (snd st)" and "tbcInv (snd st) (fst st)"
    and "tr_trades t < length s0"
  shows "\<exists>st'. groupTraderH st t = Some st'
      \<and> storeInv s0 (addrsOf (fst st')) (snd st') \<and> tbcInv (snd st') (fst st')
      \<and> absTbc (snd st') (fst st')
          = foldl (pushTrade (tr_address t)) (absTbc (snd st) (fst st)) (s0 ! tr_trades t)"
proof -
  let ?I = "\<lambda>st. storeInv s0 (addrsOf (fst st)) (snd st)"
  have body: "\<exists>st'. groupTradeH (tr_address t) st x = Some st' \<and> ?I st'" if "?I st" for st x
    using groupTradeH_push [OF that] by blast
  have arr: "tr_trades t < length (snd st) \<and> snd st ! tr_trades t = s0 ! tr_trades t"
    if "?I st" for st
    by (rule storeInv_nth [OF that assms(3)])
  have "groupTraderH st t = forOf (groupTradeH (tr_address t)) st (drop 0 (s0 ! tr_trades t))"
    unfolding groupTraderH_def
    by (rule forOfArray_forOf [where I = ?I, OF body arr assms(1)])
  then show ?thesis
    using forOf_pushTradeH [OF assms(1,2), of "tr_address t" "s0 ! tr_trades t"] by simp
qed

lemma groupAllH_abs:
  assumes "\<forall>t\<in>set traderData. tr_trades t < length s0"
  shows "\<exists>st. groupAllH traderData s0 = Some st
      \<and> storeInv s0 (addrsOf (fst st)) (snd st) \<and> tbcInv (snd st) (fst st)
      \<and> absTbc (snd st) (fst st) = groupsOf (map (derefTrader s0) traderData)"
proof -
  let ?f = "\<lambda>tbc t. foldl (pushTrade (tt_address t)) tbc (tt_trades t)"
  have gen: "\<exists>st'. forOf groupTraderH st ts = Some st'
      \<and> storeInv s0 (addrsOf (fst st')) (snd st') \<and> tbcInv (snd st') (fst st')
      \<and> absTbc (snd st') (fst st') = foldl ?f (absTbc (snd st) (fst st)) (map (derefTrader s0) ts)"
    if "storeInv s0 (addrsOf (fst st)) (snd st)" "tbcInv (snd st) (fst st)"
      "set ts \<subseteq> set traderData" for st ts
    using that
  proof (induction ts arbitrary: st)
    case Nil
    then show ?case by simp
  next
    case (Cons t ts)
    have "tr_trades t < length s0" using Cons.prems(3) assms by auto
    then obtain st1 where g: "groupTraderH st t = Some st1"
      and p1: "storeInv s0 (addrsOf (fst st1)) (snd st1)" "tbcInv (snd st1) (fst st1)"
        "absTbc (snd st1) (fst st1)
          = foldl (pushTrade (tr_address t)) (absTbc (snd st) (fst st)) (s0 ! tr_trades t)"
      using groupTraderH_abs [OF Cons.prems(1,2)] by blast
    have sub: "set ts \<subseteq> set traderData" using Cons.prems(3) by simp
    obtain st' where r: "forOf groupTraderH st1 ts = Some st'"
      and p: "storeInv s0 (addrsOf (fst st')) (snd st')" "tbcInv (snd st') (fst st')"
        "absTbc (snd st') (fst st') = foldl ?f (absTbc (snd st1) (fst st1)) (map (derefTrader s0) ts)"
      using Cons.IH [OF p1(1,2) sub] by blast
    have "forOf groupTraderH st (t # ts) = Some st'" using g r by simp
    moreover have "absTbc (snd st') (fst st')
        = foldl ?f (absTbc (snd st) (fst st)) (map (derefTrader s0) (t # ts))"
      using p(3) p1(3) by (simp add: derefTrader_def)
    ultimately show ?case using p(1,2) by blast
  qed
  have i: "storeInv s0 (addrsOf (fst ([], s0))) (snd ([], s0))"
    by (simp add: storeInv_def addrsOf_def)
  have t: "tbcInv (snd ([], s0)) (fst ([], s0))" by (simp add: tbcInv_def addrList_def)
  have "absTbc (snd ([], s0)) (fst ([], s0)) = []" by (simp add: absTbc_def)
  then show ?thesis
    unfolding groupAllH_def groupsOf_def using gen [OF i t subset_refl] by simp
qed

lemma firstTradeOfH_abs:
  assumes "a < length s" and "s ! a \<noteq> []"
  shows "firstTradeOfH (acc, s) (k, a)
      = Some (acc @ [firstOf (k, s ! a)], s[a := jsSort (\<lambda>x y. timestamp x - timestamp y) (s ! a)])"
proof -
  define srt where "srt = jsSort (\<lambda>x y. timestamp x - timestamp y) (s ! a)"
  have "length srt = length (s ! a)" unfolding srt_def by (rule length_jsSort)
  then obtain f fs where f: "srt = f # fs" using assms(2) by (cases srt) auto
  have n: "s[a := srt] ! a = f # fs" using assms(1) f by simp
  show ?thesis
    using assms(1) n f
    by (simp add: firstTradeOfH_def sortArray_def firstOf_def srt_def [symmetric])
qed

lemma forOf_firstTradeOfH_abs:
  assumes "distinct (map snd cm)" and "\<forall>a\<in>snd ` set cm. a < length s \<and> s ! a \<noteq> []"
  shows "\<exists>s'. forOf firstTradeOfH (acc, s) cm = Some (acc @ map firstOf (absCm s cm), s')
      \<and> length s' = length s \<and> (\<forall>b. b \<notin> snd ` set cm \<longrightarrow> s' ! b = s ! b)
      \<and> (\<forall>b<length s. s ! b \<noteq> [] \<longrightarrow> s' ! b \<noteq> [])"
  using assms
proof (induction cm arbitrary: acc s)
  case Nil
  then show ?case by (simp add: absCm_def)
next
  case (Cons e cm)
  obtain k a where e: "e = (k, a)" by (cases e)
  define s1 where "s1 = s[a := jsSort (\<lambda>x y. timestamp x - timestamp y) (s ! a)]"
  have a: "a < length s" "s ! a \<noteq> []" using Cons.prems(2) e by auto
  have fresh: "a \<notin> snd ` set cm" using Cons.prems(1) e by auto
  have step: "firstTradeOfH (acc, s) e = Some (acc @ [firstOf (k, s ! a)], s1)"
    unfolding e s1_def by (rule firstTradeOfH_abs [OF a])
  have same: "s1 ! b = s ! b" if "b \<noteq> a" for b using that by (simp add: s1_def)
  have len: "length s1 = length s" by (simp add: s1_def)
  have "length (s1 ! a) = length (s ! a)" using a(1) by (simp add: s1_def length_jsSort)
  then have nea: "s1 ! a \<noteq> []" using a(2) by auto
  have ne: "s1 ! b \<noteq> []" if "b < length s" "s ! b \<noteq> []" for b
    using that nea same by (cases "b = a") auto
  have d: "distinct (map snd cm)" using Cons.prems(1) by simp
  have v: "\<forall>b\<in>snd ` set cm. b < length s1 \<and> s1 ! b \<noteq> []"
  proof
    fix b assume b: "b \<in> snd ` set cm"
    then have "b \<in> snd ` set (e # cm)" by simp
    then have "b < length s \<and> s ! b \<noteq> []" using Cons.prems(2) by blast
    then show "b < length s1 \<and> s1 ! b \<noteq> []" using ne len by simp
  qed
  obtain s' where r: "forOf firstTradeOfH (acc @ [firstOf (k, s ! a)], s1) cm
        = Some ((acc @ [firstOf (k, s ! a)]) @ map firstOf (absCm s1 cm), s')"
    and p: "length s' = length s1" "\<forall>b. b \<notin> snd ` set cm \<longrightarrow> s' ! b = s1 ! b"
      "\<forall>b<length s1. s1 ! b \<noteq> [] \<longrightarrow> s' ! b \<noteq> []"
    using Cons.IH [OF d v, of "acc @ [firstOf (k, s ! a)]"] by blast
  have "s1 ! b = s ! b" if "b \<in> snd ` set cm" for b
  proof -
    have "b \<noteq> a" using that fresh by blast
    then show ?thesis by (rule same)
  qed
  then have "absCm s1 cm = absCm s cm" by (rule absCm_cong)
  then have res: "forOf firstTradeOfH (acc, s) (e # cm)
      = Some (acc @ map firstOf (absCm s (e # cm)), s')"
    using step r by (simp add: e absCm_def)
  have f1: "length s' = length s" using p(1) len by simp
  have f2: "\<forall>b. b \<notin> snd ` set (e # cm) \<longrightarrow> s' ! b = s ! b"
    using p(2) same by (simp add: e)
  have f3: "\<forall>b<length s. s ! b \<noteq> [] \<longrightarrow> s' ! b \<noteq> []"
    using p(3) ne len by simp
  show ?case using res f1 f2 f3 by blast
qed

lemma matchConditionH_abs:
  assumes "distinct (map snd (snd e))"
    and "\<forall>a\<in>snd ` set (snd e). a < length s \<and> s ! a \<noteq> []"
  shows "\<exists>s'. matchConditionH w (matched, s) e
        = Some (matched @ matchOne w (fst e, absCm s (snd e)), s')
      \<and> length s' = length s \<and> (\<forall>b. b \<notin> snd ` set (snd e) \<longrightarrow> s' ! b = s ! b)
      \<and> (\<forall>b<length s. s ! b \<noteq> [] \<longrightarrow> s' ! b \<noteq> [])"
proof (cases "length (snd e) < 2")
  case True
  then have "matchConditionH w (matched, s) e = Some (matched @ matchOne w (fst e, absCm s (snd e)), s)"
    by (simp add: matchConditionH_def matchOne_def Let_def absCm_def)
  then show ?thesis by blast
next
  case False
  then obtain k a rest where cm: "snd e = (k, a) # rest" by (cases "snd e") auto
  have a: "a < length s" "s ! a \<noteq> []" using assms(2) cm by auto
  then obtain t ts where t: "s ! a = t # ts" by (cases "s ! a") auto
  have get: "map_get (snd e) (hd (map fst (snd e))) = Some a"
    by (simp add: cm map_get_def)
  have rd: "readArray a s = Some (t # ts)" using a(1) t by (simp add: readArray_def)
  obtain s' where fo: "forOf firstTradeOfH ([], s) (snd e)
      = Some (map firstOf (absCm s (snd e)), s')"
    and fr: "length s' = length s" "\<forall>b. b \<notin> snd ` set (snd e) \<longrightarrow> s' ! b = s ! b"
      "\<forall>b<length s. s ! b \<noteq> [] \<longrightarrow> s' ! b \<noteq> []"
    using forOf_firstTradeOfH_abs [OF assms, of "[]"] by auto
  have len: "\<not> length (absCm s (snd e)) < 2" using False by (simp add: absCm_def)
  have hdv: "hd (snd (hd (absCm s (snd e)))) = t" by (simp add: cm absCm_def t)
  have "matchConditionH w (matched, s) e
        = Some (matched @ matchOne w (fst e, absCm s (snd e)), s')"
  proof (cases "pairLoop w (map firstOf (absCm s (snd e))) = []")
    case True
    then show ?thesis
      unfolding matchConditionH_def matchOne_def Let_def
      by (simp only: False get rd fo len hdv if_False bind.bind_lunit fst_conv snd_conv) simp
  next
    case ne: False
    then show ?thesis
      unfolding matchConditionH_def matchOne_def Let_def
      by (simp only: False get rd fo len hdv if_False bind.bind_lunit fst_conv snd_conv) simp
  qed
  then show ?thesis using fr by blast
qed

lemma tbcInv_Cons:
  assumes "tbcInv s (e # tbc)"
  shows "distinct (map snd (snd e))"
    and "\<forall>a\<in>snd ` set (snd e). a < length s \<and> s ! a \<noteq> []"
    and "set (addrList tbc) \<inter> snd ` set (snd e) = {}"
    and "distinct (map fst tbc)" and "list_all (\<lambda>e. distinct (map fst (snd e))) tbc"
    and "distinct (addrList tbc)"
    and "\<forall>a\<in>set (addrList tbc). a < length s \<and> s ! a \<noteq> []"
proof -
  have d: "distinct (map snd (snd e) @ addrList tbc)"
    and v: "\<forall>a\<in>set (map snd (snd e) @ addrList tbc). a < length s \<and> s ! a \<noteq> []"
    and k: "distinct (map fst (e # tbc))"
    and i: "list_all (\<lambda>e. distinct (map fst (snd e))) (e # tbc)"
    using assms unfolding tbcInv_def addrList_Cons list_all_iff by blast+
  show "distinct (map snd (snd e))" "distinct (addrList tbc)" using d by simp_all
  show "set (addrList tbc) \<inter> snd ` set (snd e) = {}" using d by auto
  show "\<forall>a\<in>snd ` set (snd e). a < length s \<and> s ! a \<noteq> []" using v by simp
  show "\<forall>a\<in>set (addrList tbc). a < length s \<and> s ! a \<noteq> []" using v by simp
  show "distinct (map fst tbc)" using k by simp
  show "list_all (\<lambda>e. distinct (map fst (snd e))) tbc" using i by simp
qed

lemma forOf_matchConditionH_abs:
  assumes "tbcInv s tbc"
  shows "\<exists>s'. forOf (matchConditionH w) (matched, s) tbc
      = Some (matched @ concat (map (matchOne w) (absTbc s tbc)), s')"
  using assms
proof (induction tbc arbitrary: matched s)
  case Nil
  then show ?case by (simp add: absTbc_def)
next
  case (Cons e tbc)
  note inv = tbcInv_Cons [OF Cons.prems]
  obtain s1 where step: "matchConditionH w (matched, s) e
        = Some (matched @ matchOne w (fst e, absCm s (snd e)), s1)"
    and fr: "length s1 = length s" "\<forall>b. b \<notin> snd ` set (snd e) \<longrightarrow> s1 ! b = s ! b"
      "\<forall>b<length s. s ! b \<noteq> [] \<longrightarrow> s1 ! b \<noteq> []"
    using matchConditionH_abs [OF inv(1,2)] by blast
  have same: "s1 ! a = s ! a" if "a \<in> set (addrList tbc)" for a
    using that inv(3) fr(2) by blast
  have v: "\<forall>a\<in>set (addrList tbc). a < length s1 \<and> s1 ! a \<noteq> []"
    using inv(7) same fr(1) by simp
  have t1: "tbcInv s1 tbc"
    unfolding tbcInv_def using inv(4,5,6) v by (simp add: list_all_iff)
  have a1: "absTbc s1 tbc = absTbc s tbc" by (rule absTbc_cong) (rule same)
  obtain s' where r: "forOf (matchConditionH w) (matched @ matchOne w (fst e, absCm s (snd e)), s1) tbc
      = Some ((matched @ matchOne w (fst e, absCm s (snd e))) @ concat (map (matchOne w) (absTbc s1 tbc)), s')"
    using Cons.IH [OF t1] by blast
  have c: "absTbc s (e # tbc) = (fst e, absCm s (snd e)) # absTbc s tbc"
    by (simp add: absTbc_def)
  have "forOf (matchConditionH w) (matched, s) (e # tbc)
      = Some (matched @ concat (map (matchOne w) (absTbc s (e # tbc))), s')"
    unfolding c using step r by (simp add: a1)
  then show ?case by blast
qed

lemma findMatchingTradesH_refines:
  assumes "\<forall>t\<in>set traderData. tr_trades t < length s0"
  shows "map_option fst (findMatchingTradesH h traderData s0)
      = findMatchingTrades h (map (derefTrader s0) traderData)"
proof -
  obtain g where g: "groupAllH traderData s0 = Some g"
    and gi: "tbcInv (snd g) (fst g)"
    and ga: "absTbc (snd g) (fst g) = groupsOf (map (derefTrader s0) traderData)"
    using groupAllH_abs [OF assms] by blast
  obtain s' where m: "forOf (matchConditionH (h * 3600)) ([], snd g) (fst g)
      = Some ([] @ concat (map (matchOne (h * 3600)) (absTbc (snd g) (fst g))), s')"
    using forOf_matchConditionH_abs [OF gi] by blast
  have "findMatchingTradesH h traderData s0
      = Some (jsSort matchedCmp (matchedOf h (map (derefTrader s0) traderData)), s')"
    by (simp add: findMatchingTradesH_def g m Let_def ga matchedOf_def)
  then show ?thesis by (simp add: findMatchingTrades_pure)
qed

text \<open>Unfolding rules that evaluate the matcher over the example store.\<close>

lemmas store_eval =
  findMatchingTradesH_def groupAllH_def groupTraderH_def forOfArray.simps groupTradeH_def
  allocArray_def pushArray_def sortArray_def readArray_def matchConditionH_def firstTradeOfH_def
  map_has_def map_get_def map_set_def Let_def jsSort_def storeExample_def refsExample_def
  mkTrade_def pairDiff_def

text \<open>
  C10. \<^verbatim>\<open>findMatchingTrades\<close> does not change its input: when every trader's \<^verbatim>\<open>trades\<close>
  array is an array of the store the call starts with, the call returns, the arrays that
  store held are all unchanged at the end, and so each trader's array holds the same
  trades in the same order. The arrays the function pushes onto and sorts are the ones
  it allocates itself, at addresses beyond the initial store (\<open>storeInv\<close>). The matched
  markets it returns are those of \<open>findMatchingTrades\<close> on the input read as values.
\<close>

theorem input_arrays_unchanged:
  "(\<forall>t\<in>set traderData. tr_trades t < length s0) \<longrightarrow>
     (\<exists>ms s. findMatchingTradesH h traderData s0 = Some (ms, s)
        \<and> length s0 \<le> length s \<and> take (length s0) s = s0
        \<and> (\<forall>t\<in>set traderData. s ! tr_trades t = s0 ! tr_trades t)
        \<and> findMatchingTrades h (map (derefTrader s0) traderData) = Some ms)"
proof
  assume valid: "\<forall>t\<in>set traderData. tr_trades t < length s0"
  obtain ms s where r: "findMatchingTradesH h traderData s0 = Some (ms, s)"
    and t: "take (length s0) s = s0"
    using findMatchingTradesH_frame [OF valid] by blast
  have l: "length s0 \<le> length s" using t by (metis length_take min.cobounded1 min.commute)
  have "s ! tr_trades x = s0 ! tr_trades x" if "x \<in> set traderData" for x
  proof -
    have "tr_trades x < length s0" using valid that by blast
    then have "take (length s0) s ! tr_trades x = s ! tr_trades x" by simp
    then show ?thesis by (simp only: t)
  qed
  then have u: "\<forall>t\<in>set traderData. s ! tr_trades t = s0 ! tr_trades t" by blast
  have "map_option fst (findMatchingTradesH h traderData s0)
      = findMatchingTrades h (map (derefTrader s0) traderData)"
    by (rule findMatchingTradesH_refines [OF valid])
  then have p: "findMatchingTrades h (map (derefTrader s0) traderData) = Some ms"
    by (simp add: r)
  show "\<exists>ms s. findMatchingTradesH h traderData s0 = Some (ms, s)
        \<and> length s0 \<le> length s \<and> take (length s0) s = s0
        \<and> (\<forall>t\<in>set traderData. s ! tr_trades t = s0 ! tr_trades t)
        \<and> findMatchingTrades h (map (derefTrader s0) traderData) = Some ms"
    using r t l u p by blast
qed

text \<open>
  The first trader's array is out of timestamp order (160, 100). After the call the two
  input arrays are as before; the sorted array (100, 160) is a new one, and the result
  reads the first trades 100 and 130 from the new arrays.
\<close>

theorem input_arrays_unchanged_witness:
  "map_option snd (findMatchingTradesH 1 refsExample storeExample)
     = Some (storeExample @ [[mkTrade ''M1'' 100, mkTrade ''M1'' 160], [mkTrade ''M1'' 130]])
   \<and> take 2 (the (map_option snd (findMatchingTradesH 1 refsExample storeExample)))
       = [[mkTrade ''M1'' 160, mkTrade ''M1'' 100], [mkTrade ''M1'' 130]]
   \<and> map (\<lambda>m. map tf_timestamp (traderTrades m))
        (the (map_option fst (findMatchingTradesH 1 refsExample storeExample))) = [[100, 130]]"
proof -
  have v: "\<forall>t\<in>set refsExample. tr_trades t < length storeExample"
    by (simp add: refsExample_def storeExample_def)
  have e: "map_option snd (findMatchingTradesH 1 refsExample storeExample)
     = Some (storeExample @ [[mkTrade ''M1'' 100, mkTrade ''M1'' 160], [mkTrade ''M1'' 130]])"
    by (simp add: store_eval)
  have m: "map (\<lambda>m. map tf_timestamp (traderTrades m))
        (the (map_option fst (findMatchingTradesH 1 refsExample storeExample))) = [[100, 130]]"
    by (simp add: store_eval)
  obtain ms s where r: "findMatchingTradesH 1 refsExample storeExample = Some (ms, s)"
    and t: "take (length storeExample) s = storeExample"
    using input_arrays_unchanged [of refsExample storeExample 1] v by blast
  have l: "length storeExample = 2" by (simp add: storeExample_def)
  have "the (map_option snd (findMatchingTradesH 1 refsExample storeExample)) = s"
    by (simp add: r)
  then have "take 2 (the (map_option snd (findMatchingTradesH 1 refsExample storeExample)))
       = storeExample"
    using t l by simp
  then have "take 2 (the (map_option snd (findMatchingTradesH 1 refsExample storeExample)))
       = [[mkTrade ''M1'' 160, mkTrade ''M1'' 100], [mkTrade ''M1'' 130]]"
    by (simp only: storeExample_def)
  then show ?thesis using e m by blast
qed

end
